theory Spec2Isabelle
  imports Complex_Main
begin

section \<open>Coin collector: authoritative server and interpolating client\<close>

text \<open>
  A shallow embedding of \<^verbatim>\<open>server.py\<close> and \<^verbatim>\<open>client.py\<close>.
  Python floats are modelled by the reals: every statement below about positions, velocities
  and times is a statement of exact arithmetic. Readings of the clock and draws of the random
  generator are parameters of the operation that makes them. Each block of the source that
  runs under the server lock is one function on the server state.
\<close>

subsection \<open>Constants of the server\<close>

definition SERVER_LATENCY :: real where "SERVER_LATENCY = 1 / 10"
definition WORLD_W :: real where "WORLD_W = 800"
definition WORLD_H :: real where "WORLD_H = 600"
definition PLAYER_SPEED :: real where "PLAYER_SPEED = 200"
definition PLAYER_RADIUS :: real where "PLAYER_RADIUS = 16"
definition COIN_RADIUS :: real where "COIN_RADIUS = 10"

subsection \<open>Decoded messages\<close>

text \<open>
  What \<^verbatim>\<open>json.loads\<close> returns: \<^verbatim>\<open>None\<close>, a bool, an int, a float, a str, a
  list or a dict (in insertion order, looked up with \<open>map_of\<close>). A datagram is identified
  with the outcome of \<^verbatim>\<open>json.loads(data.decode())\<close>: an exception, or a value.
  The server only ever tests a decoded float for truth and uses it as a dictionary key, so
  a non-finite float behaves there like any non-integral one.
\<close>

datatype json =
    JNull
  | JBool bool
  | JInt int
  | JFloat real
  | JStr string
  | JArr "json list"
  | JObj "(string \<times> json) list"

datatype payload = Undecodable | Decoded json

datatype error = AttributeError | TypeError | ZeroDivisionError

type_synonym address = "string \<times> nat"

text \<open>Python's truth value of a decoded value; \<^verbatim>\<open>d.get(k)\<close> of a missing key is \<^verbatim>\<open>None\<close>.\<close>

fun truthy :: "json \<Rightarrow> bool" where
  "truthy JNull = False"
| "truthy (JBool b) = b"
| "truthy (JInt n) = (n \<noteq> 0)"
| "truthy (JFloat r) = (r \<noteq> 0)"
| "truthy (JStr s) = (s \<noteq> [])"
| "truthy (JArr xs) = (xs \<noteq> [])"
| "truthy (JObj kvs) = (kvs \<noteq> [])"

definition get_truthy :: "(string \<times> json) list \<Rightarrow> string \<Rightarrow> bool" where
  "get_truthy d k = (case map_of d k of None \<Rightarrow> False | Some v \<Rightarrow> truthy v)"

subsection \<open>Players and the player dictionary\<close>

record player =
  p_id :: int
  p_x :: real
  p_y :: real
  p_vx :: real
  p_vy :: real
  p_score :: int
  p_last_input_time :: real
  p_addr :: "address option"

text \<open>\<^verbatim>\<open>Player.__init__\<close>; \<open>rx\<close> and \<open>ry\<close> are the two draws of \<^verbatim>\<open>random.uniform\<close>.\<close>

definition Player :: "int \<Rightarrow> real \<Rightarrow> real \<Rightarrow> player" where
  "Player pid rx ry =
     \<lparr>p_id = pid, p_x = rx, p_y = ry, p_vx = 0, p_vy = 0, p_score = 0,
      p_last_input_time = 0, p_addr = None\<rparr>"

text \<open>
  The dictionary \<^verbatim>\<open>self.players\<close> is an association list in insertion order.
  \<open>dict_update\<close> is a mutation of the object stored under a key, \<open>dict_set\<close> is
  \<^verbatim>\<open>d[k] = v\<close> and \<open>dict_del\<close> is \<^verbatim>\<open>del d[k]\<close>.
\<close>

type_synonym players = "(int \<times> player) list"

fun dict_update :: "int \<Rightarrow> (player \<Rightarrow> player) \<Rightarrow> players \<Rightarrow> players" where
  "dict_update k f [] = []"
| "dict_update k f ((k', p) # ps) =
     (if k' = k then (k', f p) # ps else (k', p) # dict_update k f ps)"

fun dict_set :: "int \<Rightarrow> player \<Rightarrow> players \<Rightarrow> players" where
  "dict_set k v [] = [(k, v)]"
| "dict_set k v ((k', p) # ps) =
     (if k' = k then (k', v) # ps else (k', p) # dict_set k v ps)"

fun dict_del :: "int \<Rightarrow> players \<Rightarrow> players" where
  "dict_del k [] = []"
| "dict_del k ((k', p) # ps) = (if k' = k then ps else (k', p) # dict_del k ps)"

text \<open>
  \<^verbatim>\<open>self.players.get(pid)\<close> for a decoded \<open>pid\<close>: the key it finds, if any. The keys
  are ints; a bool or an integral float hashes and compares as its int, a list or a dict
  is unhashable and raises.
\<close>

fun players_key :: "players \<Rightarrow> json option \<Rightarrow> error + int option" where
  "players_key ps None = Inr None"
| "players_key ps (Some JNull) = Inr None"
| "players_key ps (Some (JBool b)) =
     Inr (let k = (if b then 1 else 0) in if k \<in> fst ` set ps then Some k else None)"
| "players_key ps (Some (JInt n)) = Inr (if n \<in> fst ` set ps then Some n else None)"
| "players_key ps (Some (JFloat r)) =
     Inr (if of_int \<lfloor>r\<rfloor> = r \<and> \<lfloor>r\<rfloor> \<in> fst ` set ps then Some \<lfloor>r\<rfloor> else None)"
| "players_key ps (Some (JStr s)) = Inr None"
| "players_key ps (Some (JArr xs)) = Inl TypeError"
| "players_key ps (Some (JObj kvs)) = Inl TypeError"

subsection \<open>The input ingestor\<close>

text \<open>
  Lines 144 to 155 of \<^verbatim>\<open>udp_recv_loop\<close>: the commanded velocity of an intent whose
  four directions have the given truth values.
\<close>

definition intent_velocity :: "bool \<Rightarrow> bool \<Rightarrow> bool \<Rightarrow> bool \<Rightarrow> real \<times> real" where
  "intent_velocity left right up down =
     (let vx0 = (0::real); vy0 = (0::real);
          vx1 = (if left then vx0 - 1 else vx0);
          vx = (if right then vx1 + 1 else vx1);
          vy1 = (if up then vy0 - 1 else vy0);
          vy = (if down then vy1 + 1 else vy1);
          mag = sqrt (vx * vx + vy * vy)
      in if mag > 0 then ((vx / mag) * PLAYER_SPEED, (vy / mag) * PLAYER_SPEED)
         else (0, 0))"

text \<open>
  The body of the drain loop for one envelope (lines 129 to 156): the players after it and
  the exception that leaves the loop, if any. \<open>t\<close> is the clock reading stored as the
  time of the last input. The address is written before the intent is read, so an intent
  that is no dictionary raises after the write.
\<close>

fun process_msg :: "real \<Rightarrow> payload \<Rightarrow> address \<Rightarrow> players \<Rightarrow> players \<times> error option" where
  "process_msg t Undecodable addr ps = (ps, None)"
| "process_msg t (Decoded (JObj msg)) addr ps =
     (if map_of msg ''type'' = Some (JStr ''input'') then
        (let pid = map_of msg ''pid'';
             intent = (case map_of msg ''intent'' of None \<Rightarrow> JObj [] | Some v \<Rightarrow> v)
         in case players_key ps pid of
              Inl e \<Rightarrow> (ps, Some e)
            | Inr None \<Rightarrow> (ps, None)
            | Inr (Some k) \<Rightarrow>
                (let ps1 = dict_update k (\<lambda>p. p\<lparr>p_addr := Some addr\<rparr>) ps
                 in case intent of
                      JObj d \<Rightarrow>
                        (let (vx, vy) = intent_velocity (get_truthy d ''left'')
                               (get_truthy d ''right'') (get_truthy d ''up'')
                               (get_truthy d ''down'')
                         in (dict_update k
                               (\<lambda>p. p\<lparr>p_vx := vx, p_vy := vy, p_last_input_time := t\<rparr>) ps1,
                             None))
                    | _ \<Rightarrow> (ps1, Some AttributeError)))
      else (ps, None))"
| "process_msg t (Decoded _) addr ps = (ps, Some AttributeError)"

subsection \<open>Latency queues\<close>

text \<open>
  A latency queue is a deque of envelopes, each an eligible time and a content. Every drain
  in the source is the same loop,
  \<^verbatim>\<open>while q and q[0][0] <= now: e = q.popleft(); handle(e)\<close>,
  with \<open>now\<close> read once before the loop. \<open>drain_loop h now i q s\<close> runs it from the
  queue \<open>q\<close> and the state \<open>s\<close> the handler works on; \<open>i\<close> counts the envelopes
  handled so far (the handler of the server's inbound queue reads the clock once per
  envelope). An exception of the handler leaves the loop: the envelope is gone from the
  queue, the rest stays. The result is the queue and the state left behind, and the
  exception if there was one.
\<close>

fun drain_loop ::
  "(nat \<Rightarrow> 'a \<Rightarrow> 's \<Rightarrow> 's \<times> error option) \<Rightarrow> real \<Rightarrow> nat \<Rightarrow> (real \<times> 'a) list \<Rightarrow> 's
     \<Rightarrow> ((real \<times> 'a) list \<times> 's) \<times> error option" where
  "drain_loop h now i [] s = (([], s), None)"
| "drain_loop h now i (e # q) s =
     (if fst e \<le> now then
        (case h i (snd e) s of
           (s', None) \<Rightarrow> drain_loop h now (Suc i) q s'
         | (s', Some err) \<Rightarrow> ((q, s'), Some err))
      else ((e # q, s), None))"

subsection \<open>The server state\<close>

record coin =
  c_id :: int
  c_x :: real
  c_y :: real

record pstate =
  s_x :: real
  s_y :: real
  s_score :: int

text \<open>
  A snapshot as the broadcaster builds it. The bytes on the wire are
  \<^verbatim>\<open>json.dumps(snapshot).encode()\<close>, a function of this value, and the envelope is
  modelled as carrying the value.
\<close>

record snapshot =
  snap_time :: real
  snap_players :: "(int \<times> pstate) list"
  snap_coins :: "coin list"

text \<open>
  The fields of \<^verbatim>\<open>Server\<close> that the loops work on, with the two local variables of
  \<^verbatim>\<open>main_loop\<close> (\<open>prev\<close> and \<open>coin_spawn_timer\<close>) that live across its iterations.
\<close>

record server =
  players :: players
  next_pid :: int
  coins :: "coin list"
  coin_next_id :: int
  inbound_queue :: "(real \<times> (payload \<times> address)) list"
  outbound_queue :: "(real \<times> (snapshot \<times> address)) list"
  prev :: real
  coin_spawn_timer :: real

text \<open>\<^verbatim>\<open>Server.__init__\<close>, and the first line of \<^verbatim>\<open>main_loop\<close> reading the clock as \<open>t0\<close>.\<close>

definition init :: "real \<Rightarrow> server" where
  "init t0 =
     \<lparr>players = [], next_pid = 1, coins = [], coin_next_id = 1, inbound_queue = [],
      outbound_queue = [], prev = t0, coin_spawn_timer = 0\<rparr>"

text \<open>The two locked blocks of \<^verbatim>\<open>handle_tcp_client\<close>.\<close>

definition join :: "real \<Rightarrow> real \<Rightarrow> server \<Rightarrow> server" where
  "join rx ry s =
     (let pid = next_pid s
      in s\<lparr>next_pid := pid + 1, players := dict_set pid (Player pid rx ry) (players s)\<rparr>)"

definition leave :: "int \<Rightarrow> server \<Rightarrow> server" where
  "leave pid s =
     (if pid \<in> fst ` set (players s) then s\<lparr>players := dict_del pid (players s)\<rparr> else s)"

text \<open>\<^verbatim>\<open>udp_recv_loop\<close>: a datagram arrives at clock reading \<open>t\<close>.\<close>

definition recv :: "real \<Rightarrow> payload \<Rightarrow> address \<Rightarrow> server \<Rightarrow> server" where
  "recv t data addr s =
     s\<lparr>inbound_queue := inbound_queue s @ [(t + SERVER_LATENCY, (data, addr))]\<rparr>"

text \<open>
  \<^verbatim>\<open>udp_recv_loop\<close>: the drain of the inbound queue. \<open>clk i\<close> is the clock reading
  taken while the \<open>i\<close>-th envelope of this drain is handled.
\<close>

definition ingest :: "real \<Rightarrow> (nat \<Rightarrow> real) \<Rightarrow> server \<Rightarrow> server \<times> error option" where
  "ingest now clk s =
     (case drain_loop (\<lambda>i (data, addr) ps. process_msg (clk i) data addr ps) now 0
             (inbound_queue s) (players s) of
        ((q, ps), err) \<Rightarrow> (s\<lparr>inbound_queue := q, players := ps\<rparr>, err))"

text \<open>
  \<^verbatim>\<open>udp_recv_loop\<close>: the drain of the outbound queue. \<^verbatim>\<open>sendto\<close> may raise and the
  exception is swallowed; \<open>ok\<close> says which datagrams the socket accepts, and the state of
  the loop is the list of datagrams put on the wire.
\<close>

definition sendto :: "('a \<Rightarrow> bool) \<Rightarrow> nat \<Rightarrow> 'a \<Rightarrow> 'a list \<Rightarrow> 'a list \<times> error option" where
  "sendto ok i d wire = (if ok d then (wire @ [d], None) else (wire, None))"

definition send_due ::
  "real \<Rightarrow> (snapshot \<times> address \<Rightarrow> bool) \<Rightarrow> server \<Rightarrow> server \<times> (snapshot \<times> address) list" where
  "send_due now ok s =
     (case drain_loop (sendto ok) now 0 (outbound_queue s) [] of
        ((q, wire), err) \<Rightarrow> (s\<lparr>outbound_queue := q\<rparr>, wire))"

subsection \<open>The physics tick\<close>

definition integrate :: "real \<Rightarrow> player \<Rightarrow> player" where
  "integrate dt p =
     (let x1 = p_x p + p_vx p * dt;
          y1 = p_y p + p_vy p * dt
      in p\<lparr>p_x := max 10 (min (WORLD_W - 10) x1), p_y := max 10 (min (WORLD_H - 10) y1)\<rparr>)"

definition overlaps :: "coin \<Rightarrow> player \<Rightarrow> bool" where
  "overlaps c p =
     (let dx = c_x c - p_x p; dy = c_y c - p_y p
      in dx * dx + dy * dy \<le> (PLAYER_RADIUS + COIN_RADIUS)\<^sup>2)"

text \<open>
  The inner loop of the collision pass (lines 199 to 206) for one coin: the players after
  it, and whether the coin was appended to \<^verbatim>\<open>to_remove\<close>.
\<close>

fun collide_coin :: "coin \<Rightarrow> players \<Rightarrow> players \<times> bool" where
  "collide_coin c [] = ([], False)"
| "collide_coin c ((k, p) # ps) =
     (if overlaps c p then ((k, p\<lparr>p_score := p_score p + 1\<rparr>) # ps, True)
      else (case collide_coin c ps of (ps', hit) \<Rightarrow> ((k, p) # ps', hit)))"

text \<open>The outer loop (line 198) over the coin list, threading \<^verbatim>\<open>to_remove\<close>.\<close>

fun collide :: "coin list \<Rightarrow> players \<Rightarrow> coin list \<Rightarrow> players \<times> coin list" where
  "collide [] ps to_remove = (ps, to_remove)"
| "collide (c # cs) ps to_remove =
     (case collide_coin c ps of
        (ps', hit) \<Rightarrow> collide cs ps' (if hit then to_remove @ [c] else to_remove))"

text \<open>Lines 207 to 210: \<^verbatim>\<open>list.remove\<close> deletes the first element equal to its argument.\<close>

fun remove_coins :: "coin list \<Rightarrow> coin list \<Rightarrow> coin list" where
  "remove_coins [] cs = cs"
| "remove_coins (c # to_remove) cs =
     remove_coins to_remove (if c \<in> set cs then remove1 c cs else cs)"

text \<open>
  One iteration of \<^verbatim>\<open>main_loop\<close> under the lock. \<open>now\<close> is the clock reading;
  \<open>cx\<close> and \<open>cy\<close> are the draws of \<^verbatim>\<open>random.uniform\<close> used if a coin is spawned.
\<close>

definition spawn_due :: "real \<Rightarrow> server \<Rightarrow> bool" where
  "spawn_due dt s = (coin_spawn_timer s + dt \<ge> 2)"

definition spawn :: "real \<Rightarrow> real \<Rightarrow> real \<Rightarrow> server \<Rightarrow> server" where
  "spawn dt cx cy s =
     (if spawn_due dt s then
        s\<lparr>coin_spawn_timer := 0,
          coins := coins s @ [\<lparr>c_id = coin_next_id s, c_x = cx, c_y = cy\<rparr>],
          coin_next_id := coin_next_id s + 1\<rparr>
      else s\<lparr>coin_spawn_timer := coin_spawn_timer s + dt\<rparr>)"

definition move_players :: "real \<Rightarrow> server \<Rightarrow> server" where
  "move_players dt s = s\<lparr>players := map (\<lambda>(k, p). (k, integrate dt p)) (players s)\<rparr>"

definition collisions :: "server \<Rightarrow> server" where
  "collisions s =
     (case collide (coins s) (players s) [] of
        (ps, to_remove) \<Rightarrow> s\<lparr>players := ps, coins := remove_coins to_remove (coins s)\<rparr>)"

text \<open>Lines 175 to 194: the state on which the collision pass starts.\<close>

definition before_collisions :: "real \<Rightarrow> real \<Rightarrow> real \<Rightarrow> server \<Rightarrow> server" where
  "before_collisions now cx cy s =
     (let dt = now - prev s
      in spawn dt cx cy (move_players dt (s\<lparr>prev := now\<rparr>)))"

definition tick :: "real \<Rightarrow> real \<Rightarrow> real \<Rightarrow> server \<Rightarrow> server" where
  "tick now cx cy s = collisions (before_collisions now cx cy s)"

subsection \<open>The snapshot broadcaster\<close>

definition take_snapshot :: "real \<Rightarrow> server \<Rightarrow> snapshot" where
  "take_snapshot t s =
     \<lparr>snap_time = t,
      snap_players = map (\<lambda>(pid, p). (pid, \<lparr>s_x = p_x p, s_y = p_y p, s_score = p_score p\<rparr>))
                       (players s),
      snap_coins = map (\<lambda>c. \<lparr>c_id = c_id c, c_x = c_x c, c_y = c_y c\<rparr>) (coins s)\<rparr>"

text \<open>Lines 228 to 230. An address is a pair and so true in Python; \<^verbatim>\<open>None\<close> is false.\<close>

fun enqueue_sends ::
  "real \<Rightarrow> snapshot \<Rightarrow> players \<Rightarrow> (real \<times> (snapshot \<times> address)) list
     \<Rightarrow> (real \<times> (snapshot \<times> address)) list" where
  "enqueue_sends send_time data [] q = q"
| "enqueue_sends send_time data ((k, p) # ps) q =
     enqueue_sends send_time data ps
       (case p_addr p of None \<Rightarrow> q | Some a \<Rightarrow> q @ [(send_time, (data, a))])"

text \<open>
  One cycle of \<^verbatim>\<open>broadcaster_loop\<close> under the lock; \<open>t_snap\<close> and \<open>t_send\<close> are
  its two clock readings (lines 221 and 227).
\<close>

definition broadcast :: "real \<Rightarrow> real \<Rightarrow> server \<Rightarrow> server" where
  "broadcast t_snap t_send s =
     (let data = take_snapshot t_snap s;
          send_time = t_send + SERVER_LATENCY
      in s\<lparr>outbound_queue := enqueue_sends send_time data (players s) (outbound_queue s)\<rparr>)"

subsection \<open>The client: latency queues and the snapshot buffer\<close>

definition CLIENT_LATENCY :: real where "CLIENT_LATENCY = 1 / 10"
definition INTERPOLATION_DELAY :: real where "INTERPOLATION_DELAY = 1 / 10"

text \<open>
  What the client decodes from a datagram: an exception, a value that is no dictionary
  (\<^verbatim>\<open>snap.get\<close> raises), a dictionary of another type, or a dictionary whose type is
  \<^verbatim>\<open>"snapshot"\<close>, taken here with the fields the server sends. The field
  \<^verbatim>\<open>recv_time\<close> written at line 153 is never read and is left out.
\<close>

datatype cpayload = CUndecodable | CNotDict | COther | CSnapshot snapshot

record client =
  to_send_queue :: "(real \<times> (json \<times> address)) list"
  c_inbound_queue :: "(real \<times> cpayload) list"
  snapshots :: "snapshot list"

text \<open>\<^verbatim>\<open>deque(maxlen=200).append\<close>: a full buffer drops its oldest entry.\<close>

definition buffer_append :: "snapshot \<Rightarrow> snapshot list \<Rightarrow> snapshot list" where
  "buffer_append snap buf = (if length buf \<ge> 200 then tl buf @ [snap] else buf @ [snap])"

fun client_process :: "nat \<Rightarrow> cpayload \<Rightarrow> snapshot list \<Rightarrow> snapshot list \<times> error option" where
  "client_process i CUndecodable buf = (buf, None)"
| "client_process i CNotDict buf = (buf, Some AttributeError)"
| "client_process i COther buf = (buf, None)"
| "client_process i (CSnapshot snap) buf = (buffer_append snap buf, None)"

definition client_recv :: "real \<Rightarrow> cpayload \<Rightarrow> client \<Rightarrow> client" where
  "client_recv t data c =
     c\<lparr>c_inbound_queue := c_inbound_queue c @ [(t + CLIENT_LATENCY, data)]\<rparr>"

definition client_ingest :: "real \<Rightarrow> client \<Rightarrow> client \<times> error option" where
  "client_ingest now c =
     (case drain_loop client_process now 0 (c_inbound_queue c) (snapshots c) of
        ((q, buf), err) \<Rightarrow> (c\<lparr>c_inbound_queue := q, snapshots := buf\<rparr>, err))"

text \<open>
  \<^verbatim>\<open>send_intent\<close>: the message is the dictionary with the client's identifier and the
  intent of the four keys read in \<^verbatim>\<open>game_loop\<close>.
\<close>

definition input_msg :: "int \<Rightarrow> bool \<Rightarrow> bool \<Rightarrow> bool \<Rightarrow> bool \<Rightarrow> json" where
  "input_msg pid left right up down =
     JObj [(''type'', JStr ''input''), (''pid'', JInt pid),
           (''intent'', JObj [(''left'', JBool left), (''right'', JBool right),
                              (''up'', JBool up), (''down'', JBool down)])]"

definition send_intent ::
  "real \<Rightarrow> int \<Rightarrow> address \<Rightarrow> bool \<Rightarrow> bool \<Rightarrow> bool \<Rightarrow> bool \<Rightarrow> client \<Rightarrow> client" where
  "send_intent t pid addr left right up down c =
     (let msg = input_msg pid left right up down;
          delay_until = t + CLIENT_LATENCY
      in c\<lparr>to_send_queue := to_send_queue c @ [(delay_until, (msg, addr))]\<rparr>)"

definition client_send_due ::
  "real \<Rightarrow> (json \<times> address \<Rightarrow> bool) \<Rightarrow> client \<Rightarrow> client \<times> (json \<times> address) list" where
  "client_send_due now ok c =
     (case drain_loop (sendto ok) now 0 (to_send_queue c) [] of
        ((q, wire), err) \<Rightarrow> (c\<lparr>to_send_queue := q\<rparr>, wire))"

subsection \<open>The interpolator\<close>

text \<open>
  The keys of a snapshot's player dictionary are the decimal strings of the identifiers
  (\<^verbatim>\<open>json.dumps\<close> of an int key); they are modelled by the identifiers themselves, so
  that \<^verbatim>\<open>int(pid)\<close> at line 202 is the identity.
\<close>

text \<open>Lines 179 to 183: the first adjacent pair that brackets \<open>render_time\<close>.\<close>

fun find_pair :: "real \<Rightarrow> snapshot list \<Rightarrow> (snapshot \<times> snapshot) option" where
  "find_pair render_time (a # b # rest) =
     (if snap_time a \<le> render_time \<and> render_time \<le> snap_time b then Some (a, b)
      else find_pair render_time (b # rest))"
| "find_pair render_time [a] = None"
| "find_pair render_time [] = None"

text \<open>Python's float division raises on a zero divisor.\<close>

definition py_div :: "real \<Rightarrow> real \<Rightarrow> error + real" where
  "py_div a b = (if b = 0 then Inl ZeroDivisionError else Inr (a / b))"

text \<open>Line 192 and line 193.\<close>

definition alpha_of :: "real \<Rightarrow> real \<Rightarrow> real \<Rightarrow> error + real" where
  "alpha_of render_time t0 t1 =
     (case (if t1 > t0 then py_div (render_time - t0) (t1 - t0) else Inr 1) of
        Inl e \<Rightarrow> Inl e
      | Inr alpha \<Rightarrow> Inr (max 0 (min 1 alpha)))"

text \<open>The body of the loop at lines 197 to 202 for one player of \<open>s0\<close>.\<close>

definition interp_player :: "real \<Rightarrow> (int \<times> pstate) list \<Rightarrow> int \<times> pstate \<Rightarrow> int \<times> pstate" where
  "interp_player alpha players1 e =
     (case e of (pid, p0) \<Rightarrow>
        (let p1 = (case map_of players1 pid of None \<Rightarrow> p0 | Some q \<Rightarrow> q);
             x = s_x p0 * (1 - alpha) + s_x p1 * alpha;
             y = s_y p0 * (1 - alpha) + s_y p1 * alpha;
             score = s_score p1
         in (pid, \<lparr>s_x = x, s_y = y, s_score = score\<rparr>)))"

text \<open>\<^verbatim>\<open>interp_players[k] = v\<close> on the dictionary built by the loop.\<close>

fun idict_set :: "int \<Rightarrow> pstate \<Rightarrow> (int \<times> pstate) list \<Rightarrow> (int \<times> pstate) list" where
  "idict_set k v [] = [(k, v)]"
| "idict_set k v ((k', p) # ps) =
     (if k' = k then (k', v) # ps else (k', p) # idict_set k v ps)"

fun interp_loop ::
  "real \<Rightarrow> (int \<times> pstate) list \<Rightarrow> (int \<times> pstate) list \<Rightarrow> (int \<times> pstate) list
     \<Rightarrow> (int \<times> pstate) list" where
  "interp_loop alpha players1 [] interp_players = interp_players"
| "interp_loop alpha players1 (e # rest) interp_players =
     (case interp_player alpha players1 e of
        (k, v) \<Rightarrow> interp_loop alpha players1 rest (idict_set k v interp_players))"

text \<open>\<^verbatim>\<open>get_interpolated_state\<close>; \<open>now\<close> is the clock reading at line 172.\<close>

definition get_interpolated_state ::
  "real \<Rightarrow> snapshot list \<Rightarrow> error + ((int \<times> pstate) list \<times> coin list)" where
  "get_interpolated_state now snaps =
     (if snaps = [] then Inr ([], [])
      else
        (let render_time = now - INTERPOLATION_DELAY
         in case find_pair render_time snaps of
              None \<Rightarrow> (let s = last snaps in Inr (snap_players s, snap_coins s))
            | Some (s0, s1) \<Rightarrow>
                (case alpha_of render_time (snap_time s0) (snap_time s1) of
                   Inl e \<Rightarrow> Inl e
                 | Inr alpha \<Rightarrow>
                     Inr (interp_loop alpha (snap_players s1) (snap_players s0) [],
                          snap_coins s1))))"

subsection \<open>Runs of the server\<close>

text \<open>
  The server's threads interleave at the granularity of the blocks above. An event is one
  such block together with the clock readings and random draws it makes; a run applies a
  list of events in order. An exception in the ingestor ends its thread; a run that goes on
  ingesting afterwards only adds behaviours, so what holds of every run holds of the server.
\<close>

datatype event =
    Join real real
  | Leave int
  | Recv real payload address
  | Ingest real "nat \<Rightarrow> real"
  | SendDue real "snapshot \<times> address \<Rightarrow> bool"
  | Tick real real real
  | Broadcast real real

fun apply_event :: "event \<Rightarrow> server \<Rightarrow> server" where
  "apply_event (Join rx ry) s = join rx ry s"
| "apply_event (Leave pid) s = leave pid s"
| "apply_event (Recv t data addr) s = recv t data addr s"
| "apply_event (Ingest now clk) s = fst (ingest now clk s)"
| "apply_event (SendDue now ok) s = fst (send_due now ok s)"
| "apply_event (Tick now cx cy) s = tick now cx cy s"
| "apply_event (Broadcast t_snap t_send) s = broadcast t_snap t_send s"

definition run :: "event list \<Rightarrow> server \<Rightarrow> server" where
  "run evs s = fold apply_event evs s"

text \<open>\<^verbatim>\<open>random.uniform(a, b)\<close> returns a value between \<open>a\<close> and \<open>b\<close>.\<close>

fun draws_ok :: "event \<Rightarrow> bool" where
  "draws_ok (Join rx ry) =
     (50 \<le> rx \<and> rx \<le> WORLD_W - 50 \<and> 50 \<le> ry \<and> ry \<le> WORLD_H - 50)"
| "draws_ok (Tick now cx cy) =
     (30 \<le> cx \<and> cx \<le> WORLD_W - 30 \<and> 30 \<le> cy \<and> cy \<le> WORLD_H - 30)"
| "draws_ok _ = True"

subsection \<open>Notions used in the statements\<close>

text \<open>The bound of the clamp at lines 184 and 185.\<close>

definition margin :: real where "margin = 10"

definition in_bounds :: "player \<Rightarrow> bool" where
  "in_bounds p =
     (margin \<le> p_x p \<and> p_x p \<le> WORLD_W - margin \<and> margin \<le> p_y p \<and> p_y p \<le> WORLD_H - margin)"

definition all_in_bounds :: "server \<Rightarrow> bool" where
  "all_in_bounds s = list_all (\<lambda>e. in_bounds (snd e)) (players s)"

text \<open>The key of the first player, in the iteration order of the dictionary, that overlaps a coin.\<close>

definition first_overlapping :: "coin \<Rightarrow> players \<Rightarrow> int option" where
  "first_overlapping c ps = map_option fst (find (\<lambda>(k, p). overlaps c p) ps)"

text \<open>The number of coins of a list whose first overlapping player has key \<open>k\<close>.\<close>

definition coins_won :: "int \<Rightarrow> coin list \<Rightarrow> players \<Rightarrow> nat" where
  "coins_won k cs ps = length (filter (\<lambda>c. first_overlapping c ps = Some k) cs)"

definition total_score :: "players \<Rightarrow> int" where
  "total_score ps = sum_list (map (\<lambda>(k, p). p_score p) ps)"

text \<open>
  The invariants of the dictionaries and identifiers: player keys are distinct, coin
  identifiers are distinct, and every coin in the world has an identifier below the next
  one to be handed out.
\<close>

definition world_inv :: "server \<Rightarrow> bool" where
  "world_inv s =
     (distinct (map fst (players s)) \<and> distinct (map c_id (coins s))
      \<and> list_all (\<lambda>c. c_id c < coin_next_id s) (coins s))"

text \<open>
  What a drain does to the handler's state when no handler raises: the envelopes are handled
  in queue order, the \<open>j\<close>-th of them with index \<open>i + j\<close>.
\<close>

fun handle_all ::
  "(nat \<Rightarrow> 'a \<Rightarrow> 's \<Rightarrow> 's \<times> error option) \<Rightarrow> nat \<Rightarrow> (real \<times> 'a) list \<Rightarrow> 's \<Rightarrow> 's" where
  "handle_all h i [] s = s"
| "handle_all h i (e # es) s = handle_all h (Suc i) es (fst (h i (snd e) s))"

text \<open>
  The interpolation factor in the spec's words: the clamp of
  \<open>(render_time - t0) / (t1 - t0)\<close> to \<open>[0, 1]\<close>, defined as 1 when the two times are equal.
\<close>

definition spec_alpha :: "real \<Rightarrow> real \<Rightarrow> real \<Rightarrow> real" where
  "spec_alpha render_time t0 t1 =
     (if t1 = t0 then 1 else max 0 (min 1 ((render_time - t0) / (t1 - t0))))"

text \<open>The blend of a player of \<open>s0\<close> with its counterpart, and the score of the counterpart.\<close>

definition blend :: "real \<Rightarrow> pstate \<Rightarrow> pstate \<Rightarrow> pstate" where
  "blend alpha p0 p1 =
     \<lparr>s_x = s_x p0 * (1 - alpha) + s_x p1 * alpha,
      s_y = s_y p0 * (1 - alpha) + s_y p1 * alpha,
      s_score = s_score p1\<rparr>"

text \<open>Whether the adjacent pair at position \<open>i\<close> of the buffer brackets a time.\<close>

definition brackets :: "real \<Rightarrow> snapshot list \<Rightarrow> nat \<Rightarrow> bool" where
  "brackets render_time snaps i =
     (Suc i < length snaps \<and> snap_time (snaps ! i) \<le> render_time
      \<and> render_time \<le> snap_time (snaps ! Suc i))"

text \<open>The speed of a velocity vector.\<close>

definition magnitude :: "real \<times> real \<Rightarrow> real" where
  "magnitude v = sqrt ((fst v)\<^sup>2 + (snd v)\<^sup>2)"

text \<open>
  The intent as a vector, in the spec's words: the sum of the signed unit contributions per
  axis, left and up counting \<open>- 1\<close>, right and down counting \<open>1\<close>.
\<close>

definition intent_sum :: "bool \<Rightarrow> bool \<Rightarrow> bool \<Rightarrow> bool \<Rightarrow> real \<times> real" where
  "intent_sum left right up down =
     ((if left then - 1 else 0) + (if right then 1 else 0),
      (if up then - 1 else 0) + (if down then 1 else 0))"

text \<open>A vector divided by its length.\<close>

definition normalized :: "real \<times> real \<Rightarrow> real \<times> real" where
  "normalized v = (fst v / magnitude v, snd v / magnitude v)"

section \<open>Properties\<close>

subsection \<open>Dictionaries\<close>

lemma map_of_dict_update:
  "map_of (dict_update k f ps) k' = (if k' = k then map_option f (map_of ps k) else map_of ps k')"
  by (induction ps) auto

lemma keys_dict_update: "map fst (dict_update k f ps) = map fst ps"
  by (induction ps) auto

lemma dict_update_twice: "dict_update k g (dict_update k f ps) = dict_update k (g \<circ> f) ps"
  by (induction ps) auto

lemma map_of_key: "map_of ps k = Some p \<Longrightarrow> k \<in> fst ` set ps"
  by (metis domI dom_map_of_conv_image_fst)

lemma pres_dict_update:
  "list_all (\<lambda>e. P (snd e)) ps \<Longrightarrow> (\<And>p. P p \<Longrightarrow> P (f p))
     \<Longrightarrow> list_all (\<lambda>e. P (snd e)) (dict_update j f ps)"
  by (induction ps) auto

lemma pres_dict_set:
  "list_all (\<lambda>e. P (snd e)) ps \<Longrightarrow> P v \<Longrightarrow> list_all (\<lambda>e. P (snd e)) (dict_set j v ps)"
  by (induction ps) auto

lemma pres_dict_del:
  "list_all (\<lambda>e. P (snd e)) ps \<Longrightarrow> list_all (\<lambda>e. P (snd e)) (dict_del j ps)"
  by (induction ps) auto

subsection \<open>The commanded velocity\<close>

lemma process_input_msg:
  assumes "map_of ps k = Some p"
  shows "process_msg t (Decoded (input_msg k left right up down)) addr ps =
           (dict_update k (\<lambda>p. p\<lparr>p_addr := Some addr,
                                  p_vx := fst (intent_velocity left right up down),
                                  p_vy := snd (intent_velocity left right up down),
                                  p_last_input_time := t\<rparr>) ps, None)"
  using map_of_key [OF assms]
  by (simp add: input_msg_def get_truthy_def dict_update_twice comp_def split_beta)

lemma magnitude_intent_velocity:
  "magnitude (intent_velocity left right up down) =
     (if left \<noteq> right \<or> up \<noteq> down then PLAYER_SPEED else 0)"
  by (cases left; cases right; cases up; cases down)
     (simp_all add: intent_velocity_def PLAYER_SPEED_def Let_def magnitude_def
        power2_eq_square real_sqrt_mult)

lemma intent_velocity_zero:
  "left = right \<Longrightarrow> up = down \<Longrightarrow> intent_velocity left right up down = (0, 0)"
  by (cases right; cases down) (simp_all add: intent_velocity_def)

lemma intent_sum_nonzero:
  "(intent_sum left right up down \<noteq> (0, 0)) = (left \<noteq> right \<or> up \<noteq> down)"
  by (cases left; cases right; cases up; cases down) (simp_all add: intent_sum_def)

lemma intent_velocity_normalized:
  "intent_velocity left right up down =
     (if intent_sum left right up down = (0, 0) then (0, 0)
      else (fst (normalized (intent_sum left right up down)) * PLAYER_SPEED,
            snd (normalized (intent_sum left right up down)) * PLAYER_SPEED))"
  by (cases left; cases right; cases up; cases down)
     (simp_all add: intent_velocity_def intent_sum_def normalized_def magnitude_def Let_def
        power2_eq_square)

text \<open>
  Claim C2, as amended. The ingestor applies the input message of a known player with the
  four directions \<open>left\<close>, \<open>right\<close>, \<open>up\<close>, \<open>down\<close>. The intent is summed per
  axis into a vector of signed unit contributions, which is not zero exactly when
  \<open>left \<noteq> right\<close> or \<open>up \<noteq> down\<close>. If the sum is not zero, the player's velocity is the
  sum divided by its length and scaled by the speed constant, and its magnitude is the
  speed constant within every positive tolerance (the floats being reals here). If the sum
  is zero, as it is with all four directions false and also with opposite directions
  cancelling, the velocity is zero on both axes. So "at least one direction set" is not
  enough for the speed to be reached.
\<close>

theorem ingested_velocity_magnitude:
  assumes "map_of ps k = Some p" and "0 < tol"
  shows "\<exists>p'. map_of (fst (process_msg t (Decoded (input_msg k left right up down)) addr ps)) k
                 = Some p'
            \<and> (intent_sum left right up down \<noteq> (0, 0)) = (left \<noteq> right \<or> up \<noteq> down)
            \<and> (intent_sum left right up down \<noteq> (0, 0) \<longrightarrow>
                  p_vx p' = fst (normalized (intent_sum left right up down)) * PLAYER_SPEED
                \<and> p_vy p' = snd (normalized (intent_sum left right up down)) * PLAYER_SPEED
                \<and> \<bar>magnitude (p_vx p', p_vy p') - PLAYER_SPEED\<bar> \<le> tol)
            \<and> (intent_sum left right up down = (0, 0) \<longrightarrow> p_vx p' = 0 \<and> p_vy p' = 0)
            \<and> (\<not> left \<and> \<not> right \<and> \<not> up \<and> \<not> down \<longrightarrow> p_vx p' = 0 \<and> p_vy p' = 0)"
proof -
  let ?v = "intent_velocity left right up down"
  let ?s = "intent_sum left right up down"
  let ?p' = "p\<lparr>p_addr := Some addr, p_vx := fst ?v, p_vy := snd ?v, p_last_input_time := t\<rparr>"
  have found: "map_of (fst (process_msg t (Decoded (input_msg k left right up down)) addr ps)) k
          = Some ?p'"
    by (simp add: process_input_msg [OF assms(1)] map_of_dict_update assms(1))
  have nz: "(?s \<noteq> (0, 0)) = (left \<noteq> right \<or> up \<noteq> down)"
    by (rule intent_sum_nonzero)
  have run: "?s \<noteq> (0, 0) \<longrightarrow>
        p_vx ?p' = fst (normalized ?s) * PLAYER_SPEED
      \<and> p_vy ?p' = snd (normalized ?s) * PLAYER_SPEED
      \<and> \<bar>magnitude (p_vx ?p', p_vy ?p') - PLAYER_SPEED\<bar> \<le> tol"
  proof
    assume h: "?s \<noteq> (0, 0)"
    then have v: "?v = (fst (normalized ?s) * PLAYER_SPEED, snd (normalized ?s) * PLAYER_SPEED)"
      by (simp add: intent_velocity_normalized)
    have "magnitude ?v = PLAYER_SPEED"
      using h nz magnitude_intent_velocity [of left right up down] by simp
    then have "\<bar>magnitude (p_vx ?p', p_vy ?p') - PLAYER_SPEED\<bar> \<le> tol"
      using assms(2) by simp
    then show "p_vx ?p' = fst (normalized ?s) * PLAYER_SPEED
      \<and> p_vy ?p' = snd (normalized ?s) * PLAYER_SPEED
      \<and> \<bar>magnitude (p_vx ?p', p_vy ?p') - PLAYER_SPEED\<bar> \<le> tol"
      using v by simp
  qed
  have stop: "?s = (0, 0) \<longrightarrow> p_vx ?p' = 0 \<and> p_vy ?p' = 0"
    by (simp add: intent_velocity_normalized)
  have idle: "\<not> left \<and> \<not> right \<and> \<not> up \<and> \<not> down \<longrightarrow> p_vx ?p' = 0 \<and> p_vy ?p' = 0"
    using intent_velocity_zero [of left right up down] by auto
  show ?thesis
    using found nz run stop idle by blast
qed

text \<open>
  The theorem at a player moving right who sends "up and left", then "left and right", then
  nothing: the first velocity is the normalised diagonal at speed 200 within a millionth,
  the second and the third are zero.
\<close>

theorem ingested_velocity_magnitude_witness:
  "map_of [(1, (Player 1 100 100)\<lparr>p_vx := 200\<rparr>)] 1 = Some ((Player 1 100 100)\<lparr>p_vx := 200\<rparr>)
   \<and> (0::real) < 1 / 1000000
   \<and> intent_sum True False True False = (- 1, - 1)
   \<and> intent_sum True True False False = (0, 0)
   \<and> (\<exists>p'. map_of (fst (process_msg 9 (Decoded (input_msg 1 True False True False))
                (''10.0.0.1'', 4000) [(1, (Player 1 100 100)\<lparr>p_vx := 200\<rparr>)])) 1 = Some p'
          \<and> p_vx p' = fst (normalized (- 1, - 1)) * PLAYER_SPEED
          \<and> p_vy p' = snd (normalized (- 1, - 1)) * PLAYER_SPEED
          \<and> \<bar>magnitude (p_vx p', p_vy p') - PLAYER_SPEED\<bar> \<le> 1 / 1000000)
   \<and> (\<exists>p'. map_of (fst (process_msg 9 (Decoded (input_msg 1 True True False False))
                (''10.0.0.1'', 4000) [(1, (Player 1 100 100)\<lparr>p_vx := 200\<rparr>)])) 1 = Some p'
          \<and> p_vx p' = 0 \<and> p_vy p' = 0)
   \<and> (\<exists>p'. map_of (fst (process_msg 9 (Decoded (input_msg 1 False False False False))
                (''10.0.0.1'', 4000) [(1, (Player 1 100 100)\<lparr>p_vx := 200\<rparr>)])) 1 = Some p'
          \<and> p_vx p' = 0 \<and> p_vy p' = 0)"
proof -
  have h: "map_of [(1, (Player 1 100 100)\<lparr>p_vx := 200\<rparr>)] 1
             = Some ((Player 1 100 100)\<lparr>p_vx := 200\<rparr>)"
    by simp
  have tol: "(0::real) < 1 / 1000000"
    by simp
  have s1: "intent_sum True False True False = (- 1, - 1)"
    and s2: "intent_sum True True False False = (0, 0)"
    and s3: "intent_sum False False False False = (0, 0)"
    by (simp_all add: intent_sum_def)
  have a: "\<exists>p'. map_of (fst (process_msg 9 (Decoded (input_msg 1 True False True False))
                (''10.0.0.1'', 4000) [(1, (Player 1 100 100)\<lparr>p_vx := 200\<rparr>)])) 1 = Some p'
          \<and> p_vx p' = fst (normalized (- 1, - 1)) * PLAYER_SPEED
          \<and> p_vy p' = snd (normalized (- 1, - 1)) * PLAYER_SPEED
          \<and> \<bar>magnitude (p_vx p', p_vy p') - PLAYER_SPEED\<bar> \<le> 1 / 1000000"
    using ingested_velocity_magnitude [OF h tol, of 9 True False True False "(''10.0.0.1'', 4000)"]
    unfolding s1 by auto
  have b: "\<exists>p'. map_of (fst (process_msg 9 (Decoded (input_msg 1 True True False False))
                (''10.0.0.1'', 4000) [(1, (Player 1 100 100)\<lparr>p_vx := 200\<rparr>)])) 1 = Some p'
          \<and> p_vx p' = 0 \<and> p_vy p' = 0"
    using ingested_velocity_magnitude [OF h tol, of 9 True True False False "(''10.0.0.1'', 4000)"]
    unfolding s2 by auto
  have c: "\<exists>p'. map_of (fst (process_msg 9 (Decoded (input_msg 1 False False False False))
                (''10.0.0.1'', 4000) [(1, (Player 1 100 100)\<lparr>p_vx := 200\<rparr>)])) 1 = Some p'
          \<and> p_vx p' = 0 \<and> p_vy p' = 0"
    using ingested_velocity_magnitude [OF h tol, of 9 False False False False "(''10.0.0.1'', 4000)"]
    unfolding s3 by auto
  show ?thesis
    using h tol s1 s2 a b c by blast
qed

text \<open>
  Claim C2 as stated fails: with left and right both set at least one direction is set, yet
  the ingestor stops the player, and the magnitude of the velocity is not the speed constant.
\<close>

theorem opposite_directions_cancel:
  "magnitude (intent_velocity True True False False) \<noteq> PLAYER_SPEED
   \<and> process_msg 9 (Decoded (input_msg 1 True True False False)) (''10.0.0.1'', 4000)
       [(1, (Player 1 100 100)\<lparr>p_vx := 200\<rparr>)]
     = ([(1, (Player 1 100 100)\<lparr>p_addr := Some (''10.0.0.1'', 4000), p_vx := 0, p_vy := 0,
            p_last_input_time := 9\<rparr>)], None)"
  by (simp add: input_msg_def get_truthy_def intent_velocity_def magnitude_def Player_def
      PLAYER_SPEED_def)

subsection \<open>Messages the ingestor applies\<close>

text \<open>
  Claim C10. A decoded dictionary of type \<^verbatim>\<open>"input"\<close> with no \<^verbatim>\<open>intent\<close> key,
  whose identifier finds the key \<open>k\<close> of a player: no exception leaves the loop, and the
  player has the sender's address, zero velocity on both axes and the time of the last
  input set to the clock reading; nothing else in the dictionary changes.
\<close>

theorem missing_intent_is_all_false:
  assumes "map_of msg ''type'' = Some (JStr ''input'')"
    and "map_of msg ''intent'' = None"
    and "players_key ps (map_of msg ''pid'') = Inr (Some k)"
    and "map_of ps k = Some p"
  shows "process_msg t (Decoded (JObj msg)) addr ps =
           (dict_update k (\<lambda>p. p\<lparr>p_addr := Some addr, p_vx := 0, p_vy := 0,
                                   p_last_input_time := t\<rparr>) ps, None)
       \<and> map_of (fst (process_msg t (Decoded (JObj msg)) addr ps)) k =
           Some (p\<lparr>p_addr := Some addr, p_vx := 0, p_vy := 0, p_last_input_time := t\<rparr>)"
  using assms
  by (simp add: get_truthy_def intent_velocity_def dict_update_twice comp_def
      map_of_dict_update)

text \<open>The theorem at a moving player with no address yet, and a second player left alone.\<close>

theorem missing_intent_is_all_false_witness:
  "map_of [(''type'', JStr ''input''), (''pid'', JInt 1)] ''type'' = Some (JStr ''input'')
   \<and> map_of [(''type'', JStr ''input''), (''pid'', JInt 1)] ''intent'' = None
   \<and> players_key [(1, (Player 1 100 100)\<lparr>p_vx := 200\<rparr>), (2, Player 2 300 300)]
         (map_of [(''type'', JStr ''input''), (''pid'', JInt 1)] ''pid'') = Inr (Some 1)
   \<and> process_msg 9 (Decoded (JObj [(''type'', JStr ''input''), (''pid'', JInt 1)]))
     (''10.0.0.2'', 5000) [(1, (Player 1 100 100)\<lparr>p_vx := 200\<rparr>), (2, Player 2 300 300)]
   = ([(1, (Player 1 100 100)\<lparr>p_addr := Some (''10.0.0.2'', 5000), p_last_input_time := 9\<rparr>),
       (2, Player 2 300 300)], None)"
  using missing_intent_is_all_false [of "[(''type'', JStr ''input''), (''pid'', JInt 1)]"
      "[(1, (Player 1 100 100)\<lparr>p_vx := 200\<rparr>), (2, Player 2 300 300)]" 1
      "(Player 1 100 100)\<lparr>p_vx := 200\<rparr>" 9 "(''10.0.0.2'', 5000)"]
  by (simp add: Player_def)

text \<open>
  Claim C9, at the failing input. Player 1 is bound to the address of its first input; a
  later input for player 1 from another sender is applied, and the stored address is the
  later sender's: line 142 assigns the address on every input, although the comment above
  it reads "register UDP addr if not set".
\<close>

theorem later_sender_rebinds_address:
  "process_msg 9 (Decoded (input_msg 1 False False False False)) (''10.0.0.2'', 5000)
     [(1, (Player 1 100 100)\<lparr>p_addr := Some (''10.0.0.1'', 4000)\<rparr>)]
   = ([(1, (Player 1 100 100)\<lparr>p_addr := Some (''10.0.0.2'', 5000), p_last_input_time := 9\<rparr>)],
      None)"
  by (simp add: input_msg_def get_truthy_def intent_velocity_def Player_def)

subsection \<open>Messages the ingestor does not apply\<close>

text \<open>
  An undecodable datagram, a dictionary of another type and a dictionary whose identifier
  is hashable and finds no player are dropped: no exception, and the players are unchanged.
\<close>

lemma discarded_messages:
  "process_msg t Undecodable addr ps = (ps, None)"
  "map_of msg ''type'' \<noteq> Some (JStr ''input'')
     \<Longrightarrow> process_msg t (Decoded (JObj msg)) addr ps = (ps, None)"
  "players_key ps (map_of msg ''pid'') = Inr None
     \<Longrightarrow> process_msg t (Decoded (JObj msg)) addr ps = (ps, None)"
  by simp_all

text \<open>
  Claim C8, at the failing inputs. The \<^verbatim>\<open>try\<close> at lines 130 to 133 covers the decoding
  only. A datagram that decodes to a value that is no dictionary (here the number 5) is not
  of type \<^verbatim>\<open>"input"\<close>, and \<^verbatim>\<open>msg.get\<close> raises \<^verbatim>\<open>AttributeError\<close>; an input
  whose identifier is a list names no player, and \<^verbatim>\<open>self.players.get\<close> raises
  \<^verbatim>\<open>TypeError\<close>. The players are unchanged, but the message is not dropped silently:
  the exception leaves the drain, here with the server just started.
\<close>

theorem non_dictionary_message_raises:
  "process_msg t (Decoded (JInt 5)) addr ps = (ps, Some AttributeError)
   \<and> process_msg t (Decoded (JObj [(''type'', JStr ''input''), (''pid'', JArr [])])) addr ps
       = (ps, Some TypeError)
   \<and> ingest 1 clk (recv 0 (Decoded (JInt 5)) (''10.0.0.1'', 4000) (init 0))
       = (init 0, Some AttributeError)"
  by (simp add: ingest_def recv_def init_def SERVER_LATENCY_def)

subsection \<open>Draining a latency queue\<close>

text \<open>
  On a queue in eligible-time order whose due envelopes are all handled without an
  exception, a drain handles exactly the due envelopes, in order, and leaves the others.
\<close>

lemma drain_loop_sorted:
  assumes "sorted (map fst q)"
    and "\<And>i e s. e \<in> set q \<Longrightarrow> fst e \<le> now \<Longrightarrow> snd (h i (snd e) s) = None"
  shows "drain_loop h now i q s =
           ((filter (\<lambda>e. \<not> fst e \<le> now) q,
             handle_all h i (filter (\<lambda>e. fst e \<le> now) q) s), None)"
  using assms
proof (induction q arbitrary: i s)
  case Nil
  then show ?case by simp
next
  case (Cons e q)
  show ?case
  proof (cases "fst e \<le> now")
    case True
    obtain s' where h: "h i (snd e) s = (s', None)"
      using Cons.prems(2) [of e i s] True by (cases "h i (snd e) s") auto
    have "drain_loop h now (Suc i) q s' =
            ((filter (\<lambda>e. \<not> fst e \<le> now) q,
              handle_all h (Suc i) (filter (\<lambda>e. fst e \<le> now) q) s'), None)"
      using Cons.prems by (intro Cons.IH) auto
    then show ?thesis using True h by simp
  next
    case False
    then have "\<forall>e' \<in> set q. \<not> fst e' \<le> now"
      using Cons.prems(1) by fastforce
    then have "filter (\<lambda>e. fst e \<le> now) q = []" "filter (\<lambda>e. \<not> fst e \<le> now) q = q"
      by (auto simp: filter_empty_conv)
    then show ?thesis using False by simp
  qed
qed

text \<open>
  Claim C6, at the failing input. The server's inbound queue holds two envelopes in
  eligible-time order, both due at the time of the drain: a datagram that decodes to the
  number 5 and an input of player 1. Handling the first raises \<^verbatim>\<open>AttributeError\<close>
  outside the \<^verbatim>\<open>try\<close>, which ends the loop: the second envelope, though due, stays in
  the queue and is not processed, and player 1 is unchanged.
\<close>

theorem raising_envelope_strands_due_envelope:
  "ingest 1 clk
     ((init 0)\<lparr>players := [(1, Player 1 100 100)],
               inbound_queue :=
                 [(1 / 2, (Decoded (JInt 5), (''10.0.0.9'', 7))),
                  (1 / 2, (Decoded (input_msg 1 True False False False), (''10.0.0.1'', 4000)))]\<rparr>)
   = ((init 0)\<lparr>players := [(1, Player 1 100 100)],
                inbound_queue :=
                  [(1 / 2, (Decoded (input_msg 1 True False False False), (''10.0.0.1'', 4000)))]\<rparr>,
      Some AttributeError)"
  by (simp add: ingest_def init_def)

subsection \<open>The broadcaster\<close>

lemma enqueue_sends_eq:
  "enqueue_sends st data ps q =
     q @ map (\<lambda>a. (st, (data, a))) (List.map_filter (\<lambda>e. p_addr (snd e)) ps)"
  by (induction ps arbitrary: q) (auto split: option.splits)

lemma length_map_filter_addr:
  "length (List.map_filter (\<lambda>e. p_addr (snd e)) ps) =
     length (filter (\<lambda>e. p_addr (snd e) \<noteq> None) ps)"
  by (induction ps) (auto split: option.splits)

text \<open>
  Claim C7. A broadcaster cycle appends to the outbound queue, in the iteration order of
  the players, one envelope for each player whose address is known and none for the others;
  each carries the snapshot of this cycle and the eligible time \<open>t_send + SERVER_LATENCY\<close>.
  The number of envelopes added is the number of players with a known address.
\<close>

theorem broadcast_one_envelope_per_known_address:
  "outbound_queue (broadcast t_snap t_send s) =
     outbound_queue s @
       map (\<lambda>a. (t_send + SERVER_LATENCY, (take_snapshot t_snap s, a)))
         (List.map_filter (\<lambda>e. p_addr (snd e)) (players s))
   \<and> length (outbound_queue (broadcast t_snap t_send s)) =
       length (outbound_queue s)
         + length (filter (\<lambda>e. p_addr (snd e) \<noteq> None) (players s))"
  by (simp add: broadcast_def enqueue_sends_eq length_map_filter_addr)

text \<open>
  The scenario of the claim: two players, only the first with a known address, and an empty
  outbound queue. The cycle enqueues exactly one envelope, to that address.
\<close>

theorem broadcast_two_players_one_address:
  "outbound_queue (broadcast 5 6 ((init 0)\<lparr>players :=
       [(1, (Player 1 100 100)\<lparr>p_addr := Some (''10.0.0.1'', 4000)\<rparr>), (2, Player 2 200 200)]\<rparr>))
   = [(6 + SERVER_LATENCY,
       (take_snapshot 5 ((init 0)\<lparr>players :=
          [(1, (Player 1 100 100)\<lparr>p_addr := Some (''10.0.0.1'', 4000)\<rparr>), (2, Player 2 200 200)]\<rparr>),
        (''10.0.0.1'', 4000)))]"
  using broadcast_one_envelope_per_known_address [of 5 6 "(init 0)\<lparr>players :=
       [(1, (Player 1 100 100)\<lparr>p_addr := Some (''10.0.0.1'', 4000)\<rparr>), (2, Player 2 200 200)]\<rparr>"]
  by (simp add: init_def Player_def)

subsection \<open>The tick keeps players in bounds\<close>

lemma in_bounds_integrate: "in_bounds (integrate dt p)"
  by (simp add: in_bounds_def integrate_def margin_def WORLD_W_def WORLD_H_def Let_def)

lemma in_bounds_Player:
  "draws_ok (Join rx ry) \<Longrightarrow> in_bounds (Player pid rx ry)"
  by (simp add: in_bounds_def Player_def margin_def WORLD_W_def WORLD_H_def)

lemma collide_coin_erase:
  "map (\<lambda>e. (fst e, (snd e)\<lparr>p_score := 0\<rparr>)) (fst (collide_coin c ps)) =
   map (\<lambda>e. (fst e, (snd e)\<lparr>p_score := 0\<rparr>)) ps"
  by (induction ps) (auto split: prod.splits)

lemma collide_erase:
  "map (\<lambda>e. (fst e, (snd e)\<lparr>p_score := 0\<rparr>)) (fst (collide cs ps tr)) =
   map (\<lambda>e. (fst e, (snd e)\<lparr>p_score := 0\<rparr>)) ps"
proof (induction cs arbitrary: ps tr)
  case Nil
  show ?case by simp
next
  case (Cons c cs)
  obtain ps' hit where cc: "collide_coin c ps = (ps', hit)" by (cases "collide_coin c ps")
  then show ?case using Cons.IH [of ps'] collide_coin_erase [of c ps] by simp
qed

lemma erase_pres:
  assumes "\<And>p n. P (p\<lparr>p_score := n\<rparr>) = P p"
  shows "list_all (\<lambda>e. P (snd e)) (map (\<lambda>e. (fst e, (snd e)\<lparr>p_score := 0\<rparr>)) ps) = list_all (\<lambda>e. P (snd e)) ps"
  by (simp add: assms list_all_iff)

lemma collide_pres:
  assumes "\<And>p n. P (p\<lparr>p_score := n\<rparr>) = P p"
  shows "list_all (\<lambda>e. P (snd e)) (fst (collide cs ps tr)) = list_all (\<lambda>e. P (snd e)) ps"
  using erase_pres [of P "fst (collide cs ps tr)", OF assms] erase_pres [of P ps, OF assms]
  by (simp only: collide_erase)

lemma in_bounds_score [simp]: "in_bounds (p\<lparr>p_score := n\<rparr>) = in_bounds p"
  by (simp add: in_bounds_def)

lemma players_collisions: "players (collisions s) = fst (collide (coins s) (players s) [])"
  by (simp add: collisions_def split: prod.splits)

lemma players_before_collisions:
  "players (before_collisions now cx cy s) = map (\<lambda>(k, p). (k, integrate (now - prev s) p)) (players s)"
  by (simp add: before_collisions_def spawn_def move_players_def Let_def)

lemma all_in_bounds_tick: "all_in_bounds (tick now cx cy s)"
proof -
  have "list_all (\<lambda>e. in_bounds (snd e)) (players (before_collisions now cx cy s))"
    by (simp add: players_before_collisions list_all_iff split_beta in_bounds_integrate)
  then show ?thesis
    using collide_pres [of in_bounds, OF in_bounds_score]
    by (simp add: all_in_bounds_def tick_def players_collisions)
qed

lemma process_msg_pres:
  assumes "list_all (\<lambda>e. P (snd e)) ps"
    and "\<And>p a vx vy t. P p \<Longrightarrow> P (p\<lparr>p_addr := a\<rparr>) \<and> P (p\<lparr>p_vx := vx, p_vy := vy, p_last_input_time := t\<rparr>)"
  shows "list_all (\<lambda>e. P (snd e)) (fst (process_msg t data addr ps))"
proof (cases data)
  case Undecodable
  then show ?thesis using assms(1) by simp
next
  case (Decoded msg)
  show ?thesis
  proof (cases msg)
    case (JObj m)
    then show ?thesis using Decoded assms
      by (auto simp: Let_def split_beta intro!: pres_dict_update split: sum.splits option.splits json.splits)
  qed (use Decoded assms(1) in simp_all)
qed

lemma drain_loop_pres:
  assumes "\<And>i a s. Q s \<Longrightarrow> Q (fst (h i a s))"
    and "Q s"
  shows "Q (snd (fst (drain_loop h now i q s)))"
  using assms(2)
proof (induction q arbitrary: i s)
  case Nil
  then show ?case by simp
next
  case (Cons e q)
  show ?case
  proof (cases "fst e \<le> now")
    case True
    have Q': "Q (fst (h i (snd e) s))" using assms(1) Cons.prems by blast
    show ?thesis
    proof (cases "h i (snd e) s")
      case (Pair s' err)
      then show ?thesis using True Q' Cons.IH [of s' "Suc i"]
        by (cases err) auto
    qed
  next
    case False
    then show ?thesis using Cons.prems by simp
  qed
qed

lemma players_ingest:
  "players (fst (ingest now clk s)) =
     snd (fst (drain_loop (\<lambda>i (data, addr) ps. process_msg (clk i) data addr ps) now 0
             (inbound_queue s) (players s)))"
  by (simp add: ingest_def split: prod.splits)

lemma in_bounds_fields [simp]:
  "in_bounds (p\<lparr>p_addr := a\<rparr>) = in_bounds p"
  "in_bounds (p\<lparr>p_vx := vx\<rparr>) = in_bounds p"
  "in_bounds (p\<lparr>p_vy := vy\<rparr>) = in_bounds p"
  "in_bounds (p\<lparr>p_last_input_time := t\<rparr>) = in_bounds p"
  by (simp_all add: in_bounds_def)

lemma all_in_bounds_ingest:
  assumes "all_in_bounds s"
  shows "all_in_bounds (fst (ingest now clk s))"
proof -
  have "list_all (\<lambda>e. in_bounds (snd e)) (players (fst (ingest now clk s)))"
    unfolding players_ingest
  proof (rule drain_loop_pres)
    show "list_all (\<lambda>e. in_bounds (snd e)) (players s)"
      using assms by (simp add: all_in_bounds_def)
  next
    fix i and a :: "payload \<times> address" and ps :: players
    assume "list_all (\<lambda>e. in_bounds (snd e)) ps"
    then have "list_all (\<lambda>e. in_bounds (snd e)) (fst (process_msg (clk i) (fst a) (snd a) ps))"
      by (rule process_msg_pres) simp
    then show "list_all (\<lambda>e. in_bounds (snd e))
        (fst ((case a of (data, addr) \<Rightarrow> process_msg (clk i) data addr) ps))"
      by (simp add: split_beta)
  qed
  then show ?thesis by (simp add: all_in_bounds_def)
qed

lemma all_in_bounds_event:
  assumes "all_in_bounds s" and "draws_ok e"
  shows "all_in_bounds (apply_event e s)"
proof (cases e)
  case (Join rx ry)
  then show ?thesis using assms in_bounds_Player [of rx ry "next_pid s"]
    by (simp add: all_in_bounds_def join_def Let_def pres_dict_set)
next
  case (Leave pid)
  then show ?thesis using assms by (simp add: all_in_bounds_def leave_def pres_dict_del)
next
  case (Recv t data addr)
  then show ?thesis using assms by (simp add: all_in_bounds_def recv_def)
next
  case (Ingest now clk)
  then show ?thesis using assms(1) by (simp add: all_in_bounds_ingest)
next
  case (SendDue now ok)
  then show ?thesis using assms by (simp add: all_in_bounds_def send_due_def split: prod.splits)
next
  case (Tick now cx cy)
  then show ?thesis by (simp add: all_in_bounds_tick)
next
  case (Broadcast t1 t2)
  then show ?thesis using assms by (simp add: all_in_bounds_def broadcast_def Let_def)
qed

lemma all_in_bounds_run:
  "all_in_bounds s \<Longrightarrow> list_all draws_ok evs \<Longrightarrow> all_in_bounds (run evs s)"
  unfolding run_def
  by (induction evs arbitrary: s) (simp_all add: all_in_bounds_event)

text \<open>
  Claim C5. Whatever the time step, the position and the velocity, the integration step of
  the tick leaves a player within \<open>[margin, WORLD_W - margin]\<close> and
  \<open>[margin, WORLD_H - margin]\<close>, where \<open>margin\<close> is the bound 10 of the clamp; so
  every player is in bounds after a tick from any state. A freshly created player is in
  bounds, and so is every player of every state the server reaches from its start.
\<close>

theorem positions_stay_in_bounds:
  "in_bounds (integrate dt p)
   \<and> all_in_bounds (tick now cx cy s)
   \<and> (draws_ok (Join rx ry) \<longrightarrow> in_bounds (Player pid rx ry))
   \<and> (list_all draws_ok evs \<longrightarrow> all_in_bounds (run evs (init t0)))"
proof -
  have "all_in_bounds (init t0)" by (simp add: all_in_bounds_def init_def)
  then show ?thesis
    using in_bounds_integrate all_in_bounds_tick in_bounds_Player all_in_bounds_run
    by blast
qed

lemma run_Cons: "run (e # evs) s = run evs (apply_event e s)"
  by (simp add: run_def)

lemma run_Nil: "run [] s = s"
  by (simp add: run_def)

text \<open>
  The theorem on a run: a player joins at the corner (50, 550), its input "left" is
  received and ingested, and a tick two seconds after the start moves it 400 to the left,
  where the clamp holds it at 10.
\<close>

theorem positions_stay_in_bounds_witness:
  "draws_ok (Join 50 550) \<and> in_bounds (Player 1 50 550)
   \<and> list_all draws_ok [Join 50 550, Recv 0 (Decoded (input_msg 1 True False False False)) (''10.0.0.1'', 4000),
        Ingest 1 (\<lambda>i. 1), Tick 2 30 30]
   \<and> all_in_bounds (run [Join 50 550, Recv 0 (Decoded (input_msg 1 True False False False)) (''10.0.0.1'', 4000),
        Ingest 1 (\<lambda>i. 1), Tick 2 30 30] (init 0))
   \<and> map (\<lambda>e. (p_x (snd e), p_y (snd e))) (players (run [Join 50 550, Recv 0 (Decoded (input_msg 1 True False False False)) (''10.0.0.1'', 4000),
        Ingest 1 (\<lambda>i. 1), Tick 2 30 30] (init 0))) = [(10, 550)]"
proof -
  let ?evs = "[Join 50 550, Recv 0 (Decoded (input_msg 1 True False False False)) (''10.0.0.1'', 4000),
        Ingest 1 (\<lambda>i. 1), Tick 2 30 30]"
  have d: "list_all draws_ok ?evs" "draws_ok (Join 50 550)"
    by (simp_all add: WORLD_W_def WORLD_H_def)
  have s1: "join 50 550 (init 0) = (init 0)\<lparr>next_pid := 2, players := [(1, Player 1 50 550)]\<rparr>"
    by (simp add: join_def init_def)
  have s3: "fst (ingest 1 (\<lambda>i. 1) (recv 0 (Decoded (input_msg 1 True False False False)) (''10.0.0.1'', 4000)
             ((init 0)\<lparr>next_pid := 2, players := [(1, Player 1 50 550)]\<rparr>)))
           = (init 0)\<lparr>next_pid := 2, players := [(1, (Player 1 50 550)\<lparr>p_addr := Some (''10.0.0.1'', 4000),
                 p_vx := - 200, p_vy := 0, p_last_input_time := 1\<rparr>)]\<rparr>"
    by (simp add: ingest_def recv_def init_def SERVER_LATENCY_def input_msg_def get_truthy_def
        intent_velocity_def PLAYER_SPEED_def)
  have s4: "players (tick 2 30 30 ((init 0)\<lparr>next_pid := 2, players := [(1, (Player 1 50 550)\<lparr>p_addr := Some (''10.0.0.1'', 4000),
                 p_vx := - 200, p_vy := 0, p_last_input_time := 1\<rparr>)]\<rparr>))
           = [(1, (Player 1 50 550)\<lparr>p_addr := Some (''10.0.0.1'', 4000),
                 p_vx := - 200, p_vy := 0, p_last_input_time := 1, p_x := 10\<rparr>)]"
    by (simp add: tick_def before_collisions_def move_players_def spawn_def spawn_due_def
        collisions_def integrate_def init_def Player_def overlaps_def PLAYER_RADIUS_def
        COIN_RADIUS_def WORLD_W_def WORLD_H_def Let_def)
  have r: "players (run ?evs (init 0)) = [(1, (Player 1 50 550)\<lparr>p_addr := Some (''10.0.0.1'', 4000),
                 p_vx := - 200, p_vy := 0, p_last_input_time := 1, p_x := 10\<rparr>)]"
    by (simp add: run_Cons run_Nil s1 s3 s4)
  show ?thesis
    using d r positions_stay_in_bounds [of 0 "Player 1 50 550" 0 0 0 "init 0" 50 550 1 ?evs 0]
    by (simp add: Player_def)
qed

subsection \<open>The interpolator\<close>

lemma alpha_of_spec:
  "t0 \<le> t1 \<Longrightarrow> alpha_of render_time t0 t1 = Inr (spec_alpha render_time t0 t1)"
  by (simp add: alpha_of_def spec_alpha_def py_div_def)

lemma alpha_of_total: "\<exists>a. alpha_of render_time t0 t1 = Inr a \<and> 0 \<le> a \<and> a \<le> 1"
  by (simp add: alpha_of_def py_div_def)

lemma spec_alpha_range: "0 \<le> spec_alpha rt t0 t1 \<and> spec_alpha rt t0 t1 \<le> 1"
  by (simp add: spec_alpha_def)

lemma find_pair_Some:
  "find_pair rt snaps = Some (s0, s1) \<Longrightarrow>
     \<exists>i. brackets rt snaps i \<and> s0 = snaps ! i \<and> s1 = snaps ! Suc i \<and> (\<forall>j < i. \<not> brackets rt snaps j)"
proof (induction rt snaps rule: find_pair.induct)
  case (1 rt a b rest)
  show ?case
  proof (cases "snap_time a \<le> rt \<and> rt \<le> snap_time b")
    case True
    then have "brackets rt (a # b # rest) 0 \<and> s0 = (a # b # rest) ! 0 \<and> s1 = (a # b # rest) ! Suc 0"
      using "1.prems" by (simp add: brackets_def)
    then show ?thesis by blast
  next
    case False
    then have "find_pair rt (b # rest) = Some (s0, s1)" using "1.prems" by (auto split: if_splits)
    then obtain i where i: "brackets rt (b # rest) i" "s0 = (b # rest) ! i" "s1 = (b # rest) ! Suc i"
        "\<forall>j < i. \<not> brackets rt (b # rest) j"
      using "1.IH" False by blast
    have "brackets rt (a # b # rest) (Suc i)" using i(1) by (simp add: brackets_def)
    moreover have "\<forall>j < Suc i. \<not> brackets rt (a # b # rest) j"
    proof (intro allI impI)
      fix j assume "j < Suc i"
      show "\<not> brackets rt (a # b # rest) j"
      proof (cases j)
        case 0
        then show ?thesis using False by (simp add: brackets_def)
      next
        case (Suc j')
        then have "\<not> brackets rt (b # rest) j'" using i(4) \<open>j < Suc i\<close> by simp
        then show ?thesis using Suc by (simp add: brackets_def)
      qed
    qed
    ultimately show ?thesis using i(2,3) by (intro exI [of _ "Suc i"]) simp
  qed
qed simp_all

lemma find_pair_None:
  "(find_pair rt snaps = None) = (\<forall>i. \<not> brackets rt snaps i)"
proof (induction rt snaps rule: find_pair.induct)
  case (1 rt a b rest)
  show ?case
  proof (cases "snap_time a \<le> rt \<and> rt \<le> snap_time b")
    case True
    then have "brackets rt (a # b # rest) 0" by (simp add: brackets_def)
    then show ?thesis using True by auto
  next
    case False
    have "(\<forall>i. \<not> brackets rt (a # b # rest) i) = (\<forall>i. \<not> brackets rt (b # rest) i)"
    proof
      assume h: "\<forall>i. \<not> brackets rt (a # b # rest) i"
      show "\<forall>i. \<not> brackets rt (b # rest) i"
      proof
        fix i show "\<not> brackets rt (b # rest) i"
          using h [rule_format, of "Suc i"] by (simp add: brackets_def)
      qed
    next
      assume h: "\<forall>i. \<not> brackets rt (b # rest) i"
      show "\<forall>i. \<not> brackets rt (a # b # rest) i"
      proof
        fix i show "\<not> brackets rt (a # b # rest) i"
          using h [rule_format, of "i - 1"] False by (cases i) (simp_all add: brackets_def)
      qed
    qed
    then show ?thesis using "1.IH" False by auto
  qed
qed (simp_all add: brackets_def)

lemma fst_interp_player: "fst (interp_player alpha ps1 e) = fst e"
  by (cases e) (simp add: interp_player_def Let_def)

lemma interp_player_blend:
  "interp_player alpha ps1 (pid, p0) =
     (pid, blend alpha p0 (case map_of ps1 pid of None \<Rightarrow> p0 | Some q \<Rightarrow> q))"
  by (simp add: interp_player_def blend_def Let_def)

lemma idict_set_fresh: "k \<notin> fst ` set ps \<Longrightarrow> idict_set k v ps = ps @ [(k, v)]"
  by (induction ps) auto

lemma interp_loop_distinct:
  "distinct (map fst acc @ map fst es) \<Longrightarrow>
     interp_loop alpha ps1 es acc = acc @ map (interp_player alpha ps1) es"
proof (induction es arbitrary: acc)
  case Nil
  show ?case by simp
next
  case (Cons e es)
  obtain k v where kv: "interp_player alpha ps1 e = (k, v)" by (cases "interp_player alpha ps1 e")
  then have k: "k = fst e" using fst_interp_player [of alpha ps1 e] by simp
  have fresh: "k \<notin> fst ` set acc" using Cons.prems k by auto
  have "distinct (map fst (acc @ [(k, v)]) @ map fst es)" using Cons.prems k by auto
  then have "interp_loop alpha ps1 es (acc @ [(k, v)]) = (acc @ [(k, v)]) @ map (interp_player alpha ps1) es"
    by (rule Cons.IH)
  then show ?case using kv fresh by (simp add: idict_set_fresh)
qed

lemma map_of_interp:
  "map_of (map (interp_player alpha ps1) es) pid =
     map_option (\<lambda>p0. blend alpha p0 (case map_of ps1 pid of None \<Rightarrow> p0 | Some q \<Rightarrow> q)) (map_of es pid)"
  by (induction es) (auto simp: interp_player_blend split: option.splits)

text \<open>
  Claim C3. When the interpolator finds the bracketing pair \<open>(s0, s1)\<close>, the render time
  lies between their times, the factor \<open>alpha\<close> is the clamp of
  \<open>(render_time - s0.time) / (s1.time - s0.time)\<close> to \<open>[0, 1]\<close> (1 when the times are
  equal), the result has the players of \<open>s0\<close> in their order and the coins of \<open>s1\<close>,
  and each player \<open>p0\<close> of \<open>s0\<close> comes out at \<open>p0 * (1 - alpha) + p1 * alpha\<close> on both
  axes with the score of \<open>p1\<close>, where \<open>p1\<close> is the player's entry in \<open>s1\<close>, or \<open>p0\<close>
  itself when \<open>s1\<close> has none. The player dictionary of \<open>s0\<close> has distinct keys.
\<close>

theorem interpolation_is_convex_blend:
  assumes "find_pair (now - INTERPOLATION_DELAY) snaps = Some (s0, s1)"
    and "distinct (map fst (snap_players s0))"
    and "map_of (snap_players s0) pid = Some p0"
  shows "snap_time s0 \<le> now - INTERPOLATION_DELAY \<and> now - INTERPOLATION_DELAY \<le> snap_time s1
       \<and> 0 \<le> spec_alpha (now - INTERPOLATION_DELAY) (snap_time s0) (snap_time s1)
       \<and> spec_alpha (now - INTERPOLATION_DELAY) (snap_time s0) (snap_time s1) \<le> 1
       \<and> (\<exists>ps. get_interpolated_state now snaps = Inr (ps, snap_coins s1)
              \<and> map fst ps = map fst (snap_players s0)
              \<and> map_of ps pid =
                  Some (blend (spec_alpha (now - INTERPOLATION_DELAY) (snap_time s0) (snap_time s1))
                          p0 (case map_of (snap_players s1) pid of None \<Rightarrow> p0 | Some p1 \<Rightarrow> p1)))"
proof -
  let ?rt = "now - INTERPOLATION_DELAY"
  let ?a = "spec_alpha ?rt (snap_time s0) (snap_time s1)"
  obtain i where i: "brackets ?rt snaps i" "s0 = snaps ! i" "s1 = snaps ! Suc i"
    using find_pair_Some [OF assms(1)] by blast
  then have br: "snap_time s0 \<le> ?rt" "?rt \<le> snap_time s1"
    by (simp_all add: brackets_def)
  then have le: "snap_time s0 \<le> snap_time s1" by simp
  have ne: "snaps \<noteq> []" using assms(1) by auto
  have loop: "interp_loop ?a (snap_players s1) (snap_players s0) [] =
      map (interp_player ?a (snap_players s1)) (snap_players s0)"
    using interp_loop_distinct [of "[]" "snap_players s0" ?a "snap_players s1"] assms(2) by simp
  have res: "get_interpolated_state now snaps =
      Inr (map (interp_player ?a (snap_players s1)) (snap_players s0), snap_coins s1)"
    using ne assms(1) by (simp add: get_interpolated_state_def alpha_of_spec [OF le] loop)
  have keys: "map fst (map (interp_player ?a (snap_players s1)) (snap_players s0)) = map fst (snap_players s0)"
    by (simp add: fst_interp_player comp_def)
  show ?thesis
    using br spec_alpha_range [of ?rt "snap_time s0" "snap_time s1"] res keys
      map_of_interp [of ?a "snap_players s1" "snap_players s0" pid] assms(3)
    by simp
qed

text \<open>
  The theorem at the example of the claim: \<open>s0\<close> at time 0 with player 1 at \<open>x = 0\<close>,
  \<open>s1\<close> at time 1 with player 1 at \<open>x = 10\<close>, and the render time 0.3 (the clock reads
  0.4). Player 1 is drawn at \<open>x = 3\<close> with the score of \<open>s1\<close>; player 2, absent from
  \<open>s1\<close>, keeps its values of \<open>s0\<close>.
\<close>

theorem interpolation_is_convex_blend_witness:
  "find_pair (4 / 10 - INTERPOLATION_DELAY)
     [\<lparr>snap_time = 0,
       snap_players = [(1, \<lparr>s_x = 0, s_y = 0, s_score = 0\<rparr>), (2, \<lparr>s_x = 7, s_y = 8, s_score = 5\<rparr>)],
       snap_coins = []\<rparr>,
      \<lparr>snap_time = 1, snap_players = [(1, \<lparr>s_x = 10, s_y = 20, s_score = 3\<rparr>)],
       snap_coins = [\<lparr>c_id = 1, c_x = 40, c_y = 50\<rparr>]\<rparr>]
   = Some (\<lparr>snap_time = 0,
       snap_players = [(1, \<lparr>s_x = 0, s_y = 0, s_score = 0\<rparr>), (2, \<lparr>s_x = 7, s_y = 8, s_score = 5\<rparr>)],
       snap_coins = []\<rparr>,
      \<lparr>snap_time = 1, snap_players = [(1, \<lparr>s_x = 10, s_y = 20, s_score = 3\<rparr>)],
       snap_coins = [\<lparr>c_id = 1, c_x = 40, c_y = 50\<rparr>]\<rparr>)
   \<and> get_interpolated_state (4 / 10)
     [\<lparr>snap_time = 0,
       snap_players = [(1, \<lparr>s_x = 0, s_y = 0, s_score = 0\<rparr>), (2, \<lparr>s_x = 7, s_y = 8, s_score = 5\<rparr>)],
       snap_coins = []\<rparr>,
      \<lparr>snap_time = 1, snap_players = [(1, \<lparr>s_x = 10, s_y = 20, s_score = 3\<rparr>)],
       snap_coins = [\<lparr>c_id = 1, c_x = 40, c_y = 50\<rparr>]\<rparr>]
   = Inr ([(1, \<lparr>s_x = 3, s_y = 6, s_score = 3\<rparr>), (2, \<lparr>s_x = 7, s_y = 8, s_score = 5\<rparr>)],
          [\<lparr>c_id = 1, c_x = 40, c_y = 50\<rparr>])"
proof -
  let ?s0 = "\<lparr>snap_time = 0,
       snap_players = [(1, \<lparr>s_x = 0, s_y = 0, s_score = 0\<rparr>), (2, \<lparr>s_x = 7, s_y = 8, s_score = 5\<rparr>)],
       snap_coins = []\<rparr>"
  let ?s1 = "\<lparr>snap_time = 1, snap_players = [(1, \<lparr>s_x = 10, s_y = 20, s_score = 3\<rparr>)],
       snap_coins = [\<lparr>c_id = 1, c_x = 40, c_y = 50\<rparr>]\<rparr>"
  have f: "find_pair (4 / 10 - INTERPOLATION_DELAY) [?s0, ?s1] = Some (?s0, ?s1)"
    by (simp add: INTERPOLATION_DELAY_def)
  have d: "distinct (map fst (snap_players ?s0))"
    by simp
  have m1: "map_of (snap_players ?s0) 1 = Some \<lparr>s_x = 0, s_y = 0, s_score = 0\<rparr>"
    by simp
  have m2: "map_of (snap_players ?s0) 2 = Some \<lparr>s_x = 7, s_y = 8, s_score = 5\<rparr>"
    by simp
  obtain ps where ps: "get_interpolated_state (4 / 10) [?s0, ?s1] = Inr (ps, snap_coins ?s1)"
      "map fst ps = map fst (snap_players ?s0)"
      "map_of ps 1 = Some (blend (spec_alpha (4 / 10 - INTERPOLATION_DELAY) (snap_time ?s0)
           (snap_time ?s1)) \<lparr>s_x = 0, s_y = 0, s_score = 0\<rparr>
           (case map_of (snap_players ?s1) 1 of None \<Rightarrow> \<lparr>s_x = 0, s_y = 0, s_score = 0\<rparr>
            | Some p1 \<Rightarrow> p1))"
    using interpolation_is_convex_blend [OF f d m1] by blast
  obtain ps' where ps': "get_interpolated_state (4 / 10) [?s0, ?s1] = Inr (ps', snap_coins ?s1)"
      "map_of ps' 2 = Some (blend (spec_alpha (4 / 10 - INTERPOLATION_DELAY) (snap_time ?s0)
           (snap_time ?s1)) \<lparr>s_x = 7, s_y = 8, s_score = 5\<rparr>
           (case map_of (snap_players ?s1) 2 of None \<Rightarrow> \<lparr>s_x = 7, s_y = 8, s_score = 5\<rparr>
            | Some p1 \<Rightarrow> p1))"
    using interpolation_is_convex_blend [OF f d m2] by blast
  have same: "ps' = ps" using ps(1) ps'(1) by simp
  obtain e1 e2 where es: "ps = [e1, e2]" "fst e1 = 1" "fst e2 = 2"
    using ps(2) by (auto simp: map_eq_Cons_conv)
  have v1: "snd e1 = \<lparr>s_x = 3, s_y = 6, s_score = 3\<rparr>"
    using ps(3) es by (simp add: blend_def spec_alpha_def INTERPOLATION_DELAY_def)
  have v2: "snd e2 = \<lparr>s_x = 7, s_y = 8, s_score = 5\<rparr>"
    using ps'(2) same es
    by (simp add: blend_def spec_alpha_def INTERPOLATION_DELAY_def algebra_simps)
  have "ps = [(1, \<lparr>s_x = 3, s_y = 6, s_score = 3\<rparr>), (2, \<lparr>s_x = 7, s_y = 8, s_score = 5\<rparr>)]"
    using es v1 v2 by (cases e1; cases e2) simp
  then show ?thesis using f ps(1) by simp
qed

text \<open>
  Claim C4. For every buffer and every clock reading the interpolator returns a result and
  raises nothing, so it never divides by zero. An empty buffer gives the empty result, a
  single snapshot gives its players and coins, and a buffer none of whose adjacent pairs
  brackets the render time gives the players and coins of its last snapshot. The factor
  \<open>alpha\<close> is always defined, and is 1 when the two times are equal.
\<close>

theorem interpolator_total_with_fallback:
  "(\<exists>r. get_interpolated_state now snaps = Inr r)
   \<and> get_interpolated_state now snaps \<noteq> Inl ZeroDivisionError
   \<and> get_interpolated_state now [] = Inr ([], [])
   \<and> get_interpolated_state now [s] = Inr (snap_players s, snap_coins s)
   \<and> (snaps \<noteq> [] \<and> (\<forall>i. \<not> brackets (now - INTERPOLATION_DELAY) snaps i) \<longrightarrow>
        get_interpolated_state now snaps
          = Inr (snap_players (last snaps), snap_coins (last snaps)))
   \<and> (\<exists>a. alpha_of render_time t0 t1 = Inr a)
   \<and> alpha_of render_time t0 t0 = Inr 1"
proof -
  have total: "\<exists>r. get_interpolated_state now snaps = Inr r"
  proof (cases "find_pair (now - INTERPOLATION_DELAY) snaps")
    case None
    then show ?thesis by (simp add: get_interpolated_state_def Let_def)
  next
    case (Some pr)
    obtain a where "alpha_of (now - INTERPOLATION_DELAY) (snap_time (fst pr)) (snap_time (snd pr)) = Inr a"
      using alpha_of_total by blast
    then show ?thesis using Some by (cases pr) (simp add: get_interpolated_state_def)
  qed
  then have nz: "get_interpolated_state now snaps \<noteq> Inl ZeroDivisionError"
    by auto
  have fb: "snaps \<noteq> [] \<and> (\<forall>i. \<not> brackets (now - INTERPOLATION_DELAY) snaps i) \<longrightarrow>
        get_interpolated_state now snaps
          = Inr (snap_players (last snaps), snap_coins (last snaps))"
  proof
    assume h: "snaps \<noteq> [] \<and> (\<forall>i. \<not> brackets (now - INTERPOLATION_DELAY) snaps i)"
    then have "find_pair (now - INTERPOLATION_DELAY) snaps = None"
      by (simp add: find_pair_None)
    then show "get_interpolated_state now snaps
          = Inr (snap_players (last snaps), snap_coins (last snaps))"
      using h by (simp add: get_interpolated_state_def Let_def)
  qed
  have a1: "\<exists>a. alpha_of render_time t0 t1 = Inr a"
    using alpha_of_total by blast
  have a2: "alpha_of render_time t0 t0 = Inr 1"
    by (simp add: alpha_of_def)
  show ?thesis
    using total nz fb a1 a2 by (simp add: get_interpolated_state_def Let_def)
qed

text \<open>
  The theorem at a buffer of two snapshots, taken at times 0 and 1, read when the clock
  shows 10: no pair brackets the render time 9.9, and the result is the second snapshot.
\<close>

theorem interpolator_total_with_fallback_witness:
  "(\<forall>i. \<not> brackets (10 - INTERPOLATION_DELAY)
           [\<lparr>snap_time = 0, snap_players = [(1, \<lparr>s_x = 0, s_y = 0, s_score = 0\<rparr>)], snap_coins = []\<rparr>,
            \<lparr>snap_time = 1, snap_players = [(1, \<lparr>s_x = 10, s_y = 20, s_score = 3\<rparr>)],
             snap_coins = [\<lparr>c_id = 1, c_x = 40, c_y = 50\<rparr>]\<rparr>] i)
   \<and> get_interpolated_state 10
        [\<lparr>snap_time = 0, snap_players = [(1, \<lparr>s_x = 0, s_y = 0, s_score = 0\<rparr>)], snap_coins = []\<rparr>,
         \<lparr>snap_time = 1, snap_players = [(1, \<lparr>s_x = 10, s_y = 20, s_score = 3\<rparr>)],
          snap_coins = [\<lparr>c_id = 1, c_x = 40, c_y = 50\<rparr>]\<rparr>]
      = Inr ([(1, \<lparr>s_x = 10, s_y = 20, s_score = 3\<rparr>)], [\<lparr>c_id = 1, c_x = 40, c_y = 50\<rparr>])"
proof -
  let ?snaps = "[\<lparr>snap_time = 0, snap_players = [(1, \<lparr>s_x = 0, s_y = 0, s_score = 0\<rparr>)], snap_coins = []\<rparr>,
            \<lparr>snap_time = 1, snap_players = [(1, \<lparr>s_x = 10, s_y = 20, s_score = 3\<rparr>)],
             snap_coins = [\<lparr>c_id = 1, c_x = 40, c_y = 50\<rparr>]\<rparr>]"
  have "find_pair (10 - INTERPOLATION_DELAY) ?snaps = None"
    by (simp add: INTERPOLATION_DELAY_def)
  then have nb: "\<forall>i. \<not> brackets (10 - INTERPOLATION_DELAY) ?snaps i"
    by (rule find_pair_None [THEN iffD1])
  show ?thesis
    using nb interpolator_total_with_fallback [of 10 ?snaps]
    by simp
qed

subsection \<open>The collision pass\<close>

lemma overlaps_score [simp]: "overlaps c (p\<lparr>p_score := n\<rparr>) = overlaps c p"
  by (simp add: overlaps_def)

lemma first_overlapping_Nil [simp]: "first_overlapping c [] = None"
  by (simp add: first_overlapping_def)

lemma first_overlapping_Cons [simp]:
  "first_overlapping c (e # ps) = (if overlaps c (snd e) then Some (fst e) else first_overlapping c ps)"
  by (simp add: first_overlapping_def split_beta)

lemma first_overlapping_key: "first_overlapping c ps = Some k \<Longrightarrow> k \<in> fst ` set ps"
  by (induction ps) (auto split: if_splits)

lemma first_overlapping_None: "(first_overlapping c ps = None) = (\<forall>e \<in> set ps. \<not> overlaps c (snd e))"
  by (induction ps) auto

lemma first_overlapping_map:
  "(\<And>e. overlaps c (f e) = overlaps c (snd e)) \<Longrightarrow>
     first_overlapping c (map (\<lambda>e. (fst e, f e)) ps) = first_overlapping c ps"
  by (induction ps) auto

lemma collide_coin_none:
  "first_overlapping c ps = None \<Longrightarrow> collide_coin c ps = (ps, False)"
  by (induction ps) (auto split: if_splits)

lemma collide_coin_award:
  "distinct (map fst ps) \<Longrightarrow> first_overlapping c ps = Some k \<Longrightarrow>
     collide_coin c ps = (dict_update k (\<lambda>p. p\<lparr>p_score := p_score p + 1\<rparr>) ps, True)"
proof (induction ps)
  case Nil
  then show ?case by simp
next
  case (Cons e ps)
  obtain k' p where e: "e = (k', p)" by (cases e)
  show ?case
  proof (cases "overlaps c p")
    case True
    then show ?thesis using Cons.prems e by simp
  next
    case False
    then have fo: "first_overlapping c ps = Some k" using Cons.prems e by simp
    then have "k \<in> fst ` set ps" by (rule first_overlapping_key)
    then have "k' \<noteq> k" using Cons.prems(1) e by auto
    then show ?thesis using False e fo Cons.IH Cons.prems(1) by simp
  qed
qed

lemma dict_update_map:
  "distinct (map fst ps) \<Longrightarrow>
     dict_update k f ps = map (\<lambda>e. (fst e, if fst e = k then f (snd e) else snd e)) ps"
proof (induction ps)
  case Nil
  show ?case by simp
next
  case (Cons e ps)
  obtain k' p where e: "e = (k', p)" by (cases e)
  show ?case
  proof (cases "k' = k")
    case True
    then have "\<forall>e' \<in> set ps. fst e' \<noteq> k" using Cons.prems e by auto
    then have "map (\<lambda>e. (fst e, if fst e = k then f (snd e) else snd e)) ps = ps"
      by (intro map_idI) auto
    then show ?thesis using True e by simp
  next
    case False
    then show ?thesis using e Cons by simp
  qed
qed

lemma collide_coin_map:
  assumes "distinct (map fst ps)"
  shows "collide_coin c ps =
           (map (\<lambda>e. (fst e, if first_overlapping c ps = Some (fst e)
                            then (snd e)\<lparr>p_score := p_score (snd e) + 1\<rparr> else snd e)) ps,
            first_overlapping c ps \<noteq> None)"
proof (cases "first_overlapping c ps")
  case None
  then show ?thesis by (simp add: collide_coin_none)
next
  case (Some k)
  have "(\<lambda>e. (fst e, if fst e = k then (snd e)\<lparr>p_score := p_score (snd e) + 1\<rparr> else snd e))
      = (\<lambda>e. (fst e, if k = fst e then (snd e)\<lparr>p_score := p_score (snd e) + 1\<rparr> else snd e))"
    by auto
  then show ?thesis using Some
    by (simp add: collide_coin_award [OF assms Some] dict_update_map [OF assms])
qed

lemma coins_won_Cons:
  "coins_won k (c # cs) ps = (if first_overlapping c ps = Some k then 1 else 0) + coins_won k cs ps"
  by (simp add: coins_won_def)

lemma coins_won_Nil [simp]: "coins_won k [] ps = 0"
  by (simp add: coins_won_def)

lemma collide_pass:
  "distinct (map fst ps) \<Longrightarrow>
     collide cs ps tr =
       (map (\<lambda>e. (fst e, (snd e)\<lparr>p_score := p_score (snd e) + int (coins_won (fst e) cs ps)\<rparr>)) ps,
        tr @ filter (\<lambda>c. first_overlapping c ps \<noteq> None) cs)"
proof (induction cs arbitrary: ps tr)
  case Nil
  then show ?case by simp
next
  case (Cons c cs)
  let ?g = "\<lambda>e. if first_overlapping c ps = Some (fst e)
                then (snd e)\<lparr>p_score := p_score (snd e) + 1\<rparr> else snd e"
  let ?ps' = "map (\<lambda>e. (fst e, ?g e)) ps"
  have cc: "collide_coin c ps = (?ps', first_overlapping c ps \<noteq> None)"
    using collide_coin_map [OF Cons.prems] .
  have keys: "map fst ?ps' = map fst ps" by (simp add: comp_def)
  have fo: "first_overlapping c' ?ps' = first_overlapping c' ps" for c'
    by (rule first_overlapping_map) simp
  have cw: "coins_won k cs ?ps' = coins_won k cs ps" for k
    unfolding coins_won_def using fo by simp
  have d': "distinct (map fst ?ps')"
    unfolding keys by (rule Cons.prems)
  have IH: "collide cs ?ps' tr' =
       (map (\<lambda>e. (fst e, (snd e)\<lparr>p_score := p_score (snd e) + int (coins_won (fst e) cs ps)\<rparr>)) ?ps',
        tr' @ filter (\<lambda>c. first_overlapping c ps \<noteq> None) cs)" for tr'
    using Cons.IH [OF d', of tr'] by (simp only: fo cw)
  have players_eq: "map (\<lambda>e. (fst e, (snd e)\<lparr>p_score := p_score (snd e) + int (coins_won (fst e) cs ps)\<rparr>)) ?ps'
      = map (\<lambda>e. (fst e, (snd e)\<lparr>p_score := p_score (snd e) + int (coins_won (fst e) (c # cs) ps)\<rparr>)) ps"
    by (simp add: coins_won_Cons)
  show ?case
    unfolding collide.simps cc
    using IH players_eq by simp
qed

lemma total_collide_coin:
  "total_score (fst (collide_coin c ps)) = total_score ps + (if snd (collide_coin c ps) then 1 else 0)"
  by (induction ps) (auto simp: total_score_def split: prod.splits)

lemma total_collide:
  "total_score (fst (collide cs ps tr)) + int (length tr) =
     total_score ps + int (length (snd (collide cs ps tr)))"
proof (induction cs arbitrary: ps tr)
  case Nil
  show ?case by simp
next
  case (Cons c cs)
  obtain ps' hit where cc: "collide_coin c ps = (ps', hit)" by (cases "collide_coin c ps")
  have t: "total_score ps' = total_score ps + (if hit then 1 else 0)"
    using total_collide_coin [of c ps] cc by simp
  show ?case
    using Cons.IH [of ps' "if hit then tr @ [c] else tr"] cc t by (simp split: if_splits)
qed

lemma remove_coins_filter_gen:
  "\<forall>x \<in> set pre. \<not> P x \<Longrightarrow>
     remove_coins (filter P cs) (pre @ cs) = pre @ filter (\<lambda>c. \<not> P c) cs"
proof (induction cs arbitrary: pre)
  case Nil
  show ?case by simp
next
  case (Cons c cs)
  show ?case
  proof (cases "P c")
    case True
    then have "c \<notin> set pre" using Cons.prems by auto
    then have "remove1 c (pre @ c # cs) = pre @ cs" by (simp add: remove1_append)
    then show ?thesis using True Cons.IH [OF Cons.prems] by simp
  next
    case False
    then have "\<forall>x \<in> set (pre @ [c]). \<not> P x" using Cons.prems by simp
    then have "remove_coins (filter P cs) ((pre @ [c]) @ cs) = (pre @ [c]) @ filter (\<lambda>c. \<not> P c) cs"
      by (rule Cons.IH)
    then show ?thesis using False by simp
  qed
qed

lemma remove_coins_filter: "remove_coins (filter P cs) cs = filter (\<lambda>c. \<not> P c) cs"
  using remove_coins_filter_gen [of "[]" P cs] by simp

lemma collisions_eq:
  assumes "distinct (map fst (players s))"
  shows "collisions s =
     s\<lparr>players := map (\<lambda>e. (fst e, (snd e)\<lparr>p_score := p_score (snd e)
                          + int (coins_won (fst e) (coins s) (players s))\<rparr>)) (players s),
       coins := filter (\<lambda>c. first_overlapping c (players s) = None) (coins s)\<rparr>"
  by (simp add: collisions_def collide_pass [OF assms] remove_coins_filter)

lemma keys_collide: "map fst (fst (collide cs ps tr)) = map fst ps"
proof -
  have "map fst (map (\<lambda>e. (fst e, (snd e)\<lparr>p_score := 0\<rparr>)) (fst (collide cs ps tr))) =
        map fst (map (\<lambda>e. (fst e, (snd e)\<lparr>p_score := 0\<rparr>)) ps)"
    by (simp only: collide_erase)
  then show ?thesis by (simp add: comp_def)
qed

lemma keys_tick: "map fst (players (tick now cx cy s)) = map fst (players s)"
  by (simp add: tick_def players_collisions keys_collide players_before_collisions
      comp_def split_beta)

lemma keys_dict_set:
  "map fst (dict_set k v ps) = (if k \<in> set (map fst ps) then map fst ps else map fst ps @ [k])"
  by (induction ps) force+

lemma keys_dict_del: "map fst (dict_del k ps) = remove1 k (map fst ps)"
  by (induction ps) auto

lemma keys_process_msg: "map fst (fst (process_msg t data addr ps)) = map fst ps"
proof (cases data)
  case Undecodable
  then show ?thesis by simp
next
  case (Decoded msg)
  show ?thesis
  proof (cases msg)
    case (JObj m)
    then show ?thesis using Decoded
      by (auto simp: Let_def split_beta keys_dict_update
          split: sum.splits option.splits json.splits)
  qed (use Decoded in simp_all)
qed

lemma keys_ingest: "map fst (players (fst (ingest now clk s))) = map fst (players s)"
  unfolding players_ingest
proof (rule drain_loop_pres [where Q = "\<lambda>ps. map fst ps = map fst (players s)"])
  show "map fst (players s) = map fst (players s)" by simp
next
  fix i and a :: "payload \<times> address" and ps :: players
  assume "map fst ps = map fst (players s)"
  then show "map fst (fst ((case a of (data, addr) \<Rightarrow> process_msg (clk i) data addr) ps))
      = map fst (players s)"
    by (simp add: split_beta keys_process_msg)
qed

lemma set_remove_coins: "set (remove_coins tr cs) \<subseteq> set cs"
proof (induction tr arbitrary: cs)
  case Nil
  show ?case by simp
next
  case (Cons c tr)
  have "set (remove_coins tr (remove1 c cs)) \<subseteq> set (remove1 c cs)" by (rule Cons.IH)
  then have "set (remove_coins tr (remove1 c cs)) \<subseteq> set cs"
    using set_remove1_subset [of c cs] by blast
  then show ?case using Cons.IH [of cs] by simp
qed

lemma coins_collisions: "set (coins (collisions s)) \<subseteq> set (coins s)"
  by (simp add: collisions_def set_remove_coins split: prod.splits)

lemma coin_next_id_collisions: "coin_next_id (collisions s) = coin_next_id s"
  by (simp add: collisions_def split: prod.splits)

lemma coins_before_collisions:
  "set (coins (before_collisions now cx cy s)) \<subseteq>
     set (coins s) \<union> {\<lparr>c_id = coin_next_id s, c_x = cx, c_y = cy\<rparr>}
   \<and> coin_next_id s \<le> coin_next_id (before_collisions now cx cy s)
   \<and> (\<lparr>c_id = coin_next_id s, c_x = cx, c_y = cy\<rparr> \<in> set (coins (before_collisions now cx cy s))
        \<and> \<lparr>c_id = coin_next_id s, c_x = cx, c_y = cy\<rparr> \<notin> set (coins s)
       \<longrightarrow> coin_next_id s < coin_next_id (before_collisions now cx cy s))"
  by (auto simp: before_collisions_def spawn_def move_players_def Let_def)

lemma coins_event:
  "set (coins (apply_event e s)) \<subseteq> set (coins s) \<union> {c. c_id c = coin_next_id s}
   \<and> coin_next_id s \<le> coin_next_id (apply_event e s)"
proof (cases e)
  case (Tick now cx cy)
  show ?thesis
    using coins_before_collisions [of now cx cy s]
      coins_collisions [of "before_collisions now cx cy s"]
    by (auto simp: Tick tick_def coin_next_id_collisions)
qed (simp_all add: join_def leave_def recv_def ingest_def send_due_def broadcast_def Let_def
      split: prod.splits)

lemma gone_run:
  "c \<notin> set (coins s) \<Longrightarrow> c_id c < coin_next_id s \<Longrightarrow> c \<notin> set (coins (run evs s))"
proof (induction evs arbitrary: s)
  case Nil
  then show ?case by (simp add: run_Nil)
next
  case (Cons e evs)
  have "c \<notin> set (coins (apply_event e s))" "c_id c < coin_next_id (apply_event e s)"
    using coins_event [of e s] Cons.prems by auto
  then show ?case using Cons.IH by (simp add: run_Cons)
qed

lemma world_inv_before_collisions:
  assumes "world_inv s"
  shows "world_inv (before_collisions now cx cy s)"
  using assms
  by (auto simp: world_inv_def before_collisions_def spawn_def move_players_def Let_def
      comp_def split_beta list_all_iff)

lemma world_inv_collisions:
  assumes "world_inv s"
  shows "world_inv (collisions s)"
proof -
  have d: "distinct (map fst (players s))" using assms by (simp add: world_inv_def)
  show ?thesis
    using assms
    by (simp add: collisions_eq [OF d] world_inv_def comp_def distinct_map_filter list_all_iff)
qed

lemma world_inv_event:
  assumes "world_inv s"
  shows "world_inv (apply_event e s)"
proof (cases e)
  case (Join rx ry)
  then show ?thesis using assms
    by (auto simp: world_inv_def join_def Let_def keys_dict_set)
next
  case (Leave pid)
  then show ?thesis using assms
    by (auto simp: world_inv_def leave_def keys_dict_del)
next
  case (Recv t data addr)
  then show ?thesis using assms by (simp add: world_inv_def recv_def)
next
  case (Ingest now clk)
  have "coins (fst (ingest now clk s)) = coins s" "coin_next_id (fst (ingest now clk s)) = coin_next_id s"
    by (simp_all add: ingest_def split: prod.splits)
  then show ?thesis using assms Ingest by (simp add: world_inv_def keys_ingest)
next
  case (SendDue now ok)
  then show ?thesis using assms by (simp add: world_inv_def send_due_def split: prod.splits)
next
  case (Tick now cx cy)
  then show ?thesis using assms
    by (simp add: tick_def world_inv_collisions world_inv_before_collisions)
next
  case (Broadcast t1 t2)
  then show ?thesis using assms by (simp add: world_inv_def broadcast_def Let_def)
qed

lemma world_inv_run: "world_inv s \<Longrightarrow> world_inv (run evs s)"
  by (induction evs arbitrary: s) (simp_all add: run_Nil run_Cons world_inv_event)

lemma world_inv_init: "world_inv (init t0)"
  by (simp add: world_inv_def init_def)

lemma count_list_distinct: "distinct xs \<Longrightarrow> x \<in> set xs \<Longrightarrow> count_list xs x = 1"
  by (induction xs) auto

lemma first_overlapping_Some:
  "e \<in> set ps \<Longrightarrow> overlaps c (snd e) \<Longrightarrow> \<exists>k. first_overlapping c ps = Some k"
  using first_overlapping_None [of c ps] by (cases "first_overlapping c ps") auto

lemma tick_eq:
  assumes "world_inv s" and "s1 = before_collisions now cx cy s"
  shows "tick now cx cy s =
     s1\<lparr>players := map (\<lambda>e. (fst e, (snd e)\<lparr>p_score := p_score (snd e)
                          + int (coins_won (fst e) (coins s1) (players s1))\<rparr>)) (players s1),
        coins := filter (\<lambda>c. first_overlapping c (players s1) = None) (coins s1)\<rparr>"
proof -
  have "world_inv s1" using assms by (simp add: world_inv_before_collisions)
  then have "distinct (map fst (players s1))" by (simp add: world_inv_def)
  then show ?thesis using assms(2) by (simp add: tick_def collisions_eq)
qed

text \<open>
  Claim C1. Let \<open>s1\<close> be the state of a tick when its collision pass starts (players
  moved and clamped, a coin spawned if due), from a state with distinct player keys and
  distinct coin identifiers below the next one. If a coin \<open>c\<close> of \<open>s1\<close> is overlapped by
  some player, then there is a first overlapping player \<open>k\<close> in iteration order; the
  inner loop for \<open>c\<close> adds one point to \<open>k\<close> and to nobody else, so the total score
  grows by exactly one; \<open>c\<close> occurs once in the coin list. The pass examines every coin
  of \<open>s1\<close>: after the tick each player has gained the number of coins of \<open>s1\<close> whose
  first overlapping player it is, the total score has grown by the number of overlapped
  coins, and the coins left are those of \<open>s1\<close> that no player overlaps, in their order.
  So \<open>c\<close> is not in the world after the tick, nor after any run of events that follows.
\<close>

theorem coin_consumed_exactly_once:
  assumes "world_inv s"
    and "s1 = before_collisions now cx cy s"
    and "c \<in> set (coins s1)"
    and "e \<in> set (players s1)" and "overlaps c (snd e)"
  shows "\<exists>k. first_overlapping c (players s1) = Some k
      \<and> collide_coin c (players s1) =
          (dict_update k (\<lambda>p. p\<lparr>p_score := p_score p + 1\<rparr>) (players s1), True)
      \<and> total_score (fst (collide_coin c (players s1))) = total_score (players s1) + 1
      \<and> count_list (coins s1) c = 1
      \<and> players (tick now cx cy s) =
          map (\<lambda>e. (fst e, (snd e)\<lparr>p_score := p_score (snd e)
                 + int (coins_won (fst e) (coins s1) (players s1))\<rparr>)) (players s1)
      \<and> total_score (players (tick now cx cy s)) =
          total_score (players s1)
            + int (length (filter (\<lambda>c. first_overlapping c (players s1) \<noteq> None) (coins s1)))
      \<and> coins (tick now cx cy s) =
          filter (\<lambda>c. first_overlapping c (players s1) = None) (coins s1)
      \<and> c \<notin> set (coins (tick now cx cy s))
      \<and> c \<notin> set (coins (run evs (tick now cx cy s)))"
proof -
  have inv1: "world_inv s1" using assms(1,2) by (simp add: world_inv_before_collisions)
  then have d: "distinct (map fst (players s1))" and dc: "distinct (map c_id (coins s1))"
    and below: "c_id c < coin_next_id s1"
    using assms(3) by (simp_all add: world_inv_def list_all_iff)
  obtain k where k: "first_overlapping c (players s1) = Some k"
    using first_overlapping_Some [OF assms(4,5)] by blast
  have award: "collide_coin c (players s1) =
      (dict_update k (\<lambda>p. p\<lparr>p_score := p_score p + 1\<rparr>) (players s1), True)"
    using collide_coin_award [OF d k] .
  have one: "total_score (fst (collide_coin c (players s1))) = total_score (players s1) + 1"
    using total_collide_coin [of c "players s1"] award by simp
  have "distinct (coins s1)" using dc by (simp add: distinct_map)
  then have once: "count_list (coins s1) c = 1"
    using assms(3) by (simp add: count_list_distinct)
  have t: "tick now cx cy s =
     s1\<lparr>players := map (\<lambda>e. (fst e, (snd e)\<lparr>p_score := p_score (snd e)
                          + int (coins_won (fst e) (coins s1) (players s1))\<rparr>)) (players s1),
        coins := filter (\<lambda>c. first_overlapping c (players s1) = None) (coins s1)\<rparr>"
    using tick_eq [OF assms(1,2)] .
  have tot: "total_score (players (tick now cx cy s)) =
          total_score (players s1)
            + int (length (filter (\<lambda>c. first_overlapping c (players s1) \<noteq> None) (coins s1)))"
    using total_collide [of "coins s1" "players s1" "[]"] collide_pass [OF d, of "coins s1" "[]"]
    by (simp add: tick_def assms(2) [symmetric] players_collisions)
  have gone: "c \<notin> set (coins (tick now cx cy s))"
    using k by (simp add: t)
  have "c_id c < coin_next_id (tick now cx cy s)"
    using below by (simp add: t)
  then have forever: "c \<notin> set (coins (run evs (tick now cx cy s)))"
    using gone by (rule gone_run [rotated])
  show ?thesis
    using k award one once tot gone forever by (simp add: t)
qed

text \<open>
  The theorem at two players 10 apart with a coin between them and a second coin far away,
  one second after the last tick. Both players overlap the first coin; player 1, first in
  the dictionary, gets the point and player 2 none. The first coin is gone, the second
  stays, and a later tick that spawns a new coin at the same place does not bring the first
  one back.
\<close>

theorem coin_consumed_exactly_once_witness:
  "world_inv ((init 0)\<lparr>players := [(1, Player 1 100 100), (2, Player 2 110 100)],
       coins := [\<lparr>c_id = 1, c_x = 105, c_y = 100\<rparr>, \<lparr>c_id = 2, c_x = 400, c_y = 400\<rparr>],
       coin_next_id := 3\<rparr>)
   \<and> \<lparr>c_id = 1, c_x = 105, c_y = 100\<rparr>
        \<in> set (coins (before_collisions 1 50 60
             ((init 0)\<lparr>players := [(1, Player 1 100 100), (2, Player 2 110 100)],
                coins := [\<lparr>c_id = 1, c_x = 105, c_y = 100\<rparr>, \<lparr>c_id = 2, c_x = 400, c_y = 400\<rparr>],
                coin_next_id := 3\<rparr>)))
   \<and> overlaps \<lparr>c_id = 1, c_x = 105, c_y = 100\<rparr> (Player 1 100 100)
   \<and> overlaps \<lparr>c_id = 1, c_x = 105, c_y = 100\<rparr> (Player 2 110 100)
   \<and> map (\<lambda>e. (fst e, p_score (snd e)))
       (players (tick 1 50 60 ((init 0)\<lparr>players := [(1, Player 1 100 100), (2, Player 2 110 100)],
          coins := [\<lparr>c_id = 1, c_x = 105, c_y = 100\<rparr>, \<lparr>c_id = 2, c_x = 400, c_y = 400\<rparr>],
          coin_next_id := 3\<rparr>))) = [(1, 1), (2, 0)]
   \<and> coins (tick 1 50 60 ((init 0)\<lparr>players := [(1, Player 1 100 100), (2, Player 2 110 100)],
          coins := [\<lparr>c_id = 1, c_x = 105, c_y = 100\<rparr>, \<lparr>c_id = 2, c_x = 400, c_y = 400\<rparr>],
          coin_next_id := 3\<rparr>)) = [\<lparr>c_id = 2, c_x = 400, c_y = 400\<rparr>]
   \<and> \<lparr>c_id = 1, c_x = 105, c_y = 100\<rparr> \<notin> set (coins (run [Tick (7 / 2) 105 100]
        (tick 1 50 60 ((init 0)\<lparr>players := [(1, Player 1 100 100), (2, Player 2 110 100)],
          coins := [\<lparr>c_id = 1, c_x = 105, c_y = 100\<rparr>, \<lparr>c_id = 2, c_x = 400, c_y = 400\<rparr>],
          coin_next_id := 3\<rparr>))))"
proof -
  let ?s = "(init 0)\<lparr>players := [(1, Player 1 100 100), (2, Player 2 110 100)],
       coins := [\<lparr>c_id = 1, c_x = 105, c_y = 100\<rparr>, \<lparr>c_id = 2, c_x = 400, c_y = 400\<rparr>],
       coin_next_id := 3\<rparr>"
  let ?c = "\<lparr>c_id = 1, c_x = 105, c_y = 100\<rparr>"
  let ?s1 = "?s\<lparr>prev := 1, coin_spawn_timer := 1\<rparr>"
  have inv: "world_inv ?s"
    by (simp add: world_inv_def init_def)
  have s1: "?s1 = before_collisions 1 50 60 ?s"
    by (simp add: before_collisions_def move_players_def spawn_def spawn_due_def integrate_def
        init_def Player_def WORLD_W_def WORLD_H_def)
  have c_in: "?c \<in> set (coins ?s1)"
    by simp
  have e_in: "(2, Player 2 110 100) \<in> set (players ?s1)"
    by simp
  have ov1: "overlaps ?c (Player 1 100 100)"
    by (simp add: overlaps_def Player_def PLAYER_RADIUS_def COIN_RADIUS_def)
  have ov2: "overlaps ?c (snd (2, Player 2 110 100))"
    by (simp add: overlaps_def Player_def PLAYER_RADIUS_def COIN_RADIUS_def)
  have nov: "\<not> overlaps \<lparr>c_id = 2, c_x = 400, c_y = 400\<rparr> (Player 1 100 100)"
      "\<not> overlaps \<lparr>c_id = 2, c_x = 400, c_y = 400\<rparr> (Player 2 110 100)"
    by (simp_all add: overlaps_def Player_def PLAYER_RADIUS_def COIN_RADIUS_def)
  have cw: "coins_won 1 (coins ?s1) (players ?s1) = 1" "coins_won 2 (coins ?s1) (players ?s1) = 0"
    using ov1 ov2 nov by (simp_all add: coins_won_def first_overlapping_def)
  have fo: "filter (\<lambda>c. first_overlapping c (players ?s1) = None) (coins ?s1)
      = [\<lparr>c_id = 2, c_x = 400, c_y = 400\<rparr>]"
    using ov1 ov2 nov by (simp add: first_overlapping_def)
  from coin_consumed_exactly_once [OF inv s1 c_in e_in ov2, of "[Tick (7 / 2) 105 100]"]
  have concl: "players (tick 1 50 60 ?s) =
          map (\<lambda>e. (fst e, (snd e)\<lparr>p_score := p_score (snd e)
                 + int (coins_won (fst e) (coins ?s1) (players ?s1))\<rparr>)) (players ?s1)"
      "coins (tick 1 50 60 ?s) =
          filter (\<lambda>c. first_overlapping c (players ?s1) = None) (coins ?s1)"
      "?c \<notin> set (coins (run [Tick (7 / 2) 105 100] (tick 1 50 60 ?s)))"
    by blast+
  have p: "map (\<lambda>e. (fst e, p_score (snd e))) (players (tick 1 50 60 ?s)) = [(1, 1), (2, 0)]"
    unfolding concl(1) using cw by (simp add: Player_def)
  have q: "coins (tick 1 50 60 ?s) = [\<lparr>c_id = 2, c_x = 400, c_y = 400\<rparr>]"
    unfolding concl(2) fo by simp
  have c_in': "?c \<in> set (coins (before_collisions 1 50 60 ?s))"
    using c_in unfolding s1 .
  show ?thesis
    using inv c_in' ov1 ov2 p q concl(3) by simp
qed

end
